theory Spec2Isabelle
  imports Main "HOL-Library.Sublist"
begin

section \<open>Python values\<close>

text \<open>
  The module \<^verbatim>\<open>abp/filters/rpy.py\<close> is modelled with the semantics of Python 3.
  A text string (\<^verbatim>\<open>str\<close>) is a sequence of Unicode code points, a byte string
  (\<^verbatim>\<open>bytes\<close>) is a sequence of octets; the two kinds never compare equal.
\<close>

type_synonym unicode = "nat list"
type_synonym bytes = "char list"

text \<open>
  A dictionary is the list of its items in insertion order, which is the order in which
  \<^verbatim>\<open>data.items()\<close> yields them.  \<open>PObj\<close> stands for an object of any other
  kind (a custom class instance), known by its identity only.  Instances of subclasses of
  \<^verbatim>\<open>dict\<close>, \<^verbatim>\<open>list\<close>, \<^verbatim>\<open>tuple\<close> and \<^verbatim>\<open>str\<close> are represented by
  their base kind, as \<^verbatim>\<open>isinstance\<close> sees them.  Floating point numbers are left out.
\<close>

datatype pyval =
    PDict "(pyval \<times> pyval) list"
  | PList "pyval list"
  | PTuple "pyval list"
  | PStr unicode
  | PBytes bytes
  | PInt int
  | PBool bool
  | PNone
  | PObj nat

text \<open>
  Exceptions.  \<open>UnicodeEncodeError\<close> is what \<^verbatim>\<open>str.encode('utf-8')\<close> raises,
  \<open>RecursionError\<close> is what the interpreter raises when the call stack is exhausted,
  \<open>Raised name\<close> is any exception raised by the external parser.
\<close>

datatype exn = UnicodeEncodeError | RecursionError | Raised unicode

text \<open>The code points of an ASCII literal of the source, such as \<^verbatim>\<open>'type'\<close>.\<close>

definition ascii :: "string \<Rightarrow> unicode" where
  "ascii s = map of_char s"

subsection \<open>Equality of dictionary keys\<close>

text \<open>
  Python compares keys with \<^verbatim>\<open>==\<close>: \<^verbatim>\<open>True == 1\<close> and \<^verbatim>\<open>False == 0\<close>, tuples are
  equal when their elements are, and text is never equal to bytes.  Dictionaries and lists
  are unhashable and are never keys; on them \<open>key_norm\<close> is the identity.
\<close>

fun key_norm :: "pyval \<Rightarrow> pyval" where
  "key_norm (PBool b) = PInt (if b then 1 else 0)"
| "key_norm (PTuple vs) = PTuple (map key_norm vs)"
| "key_norm v = v"

definition py_eq :: "pyval \<Rightarrow> pyval \<Rightarrow> bool" where
  "py_eq a b = (key_norm a = key_norm b)"

fun hashable :: "pyval \<Rightarrow> bool" where
  "hashable (PDict d) = False"
| "hashable (PList vs) = False"
| "hashable (PTuple vs) = list_all hashable vs"
| "hashable v = True"

text \<open>\<^verbatim>\<open>d[k] = v\<close>: an equal key that is already present stays, its value is replaced.\<close>

fun dict_setitem :: "(pyval \<times> pyval) list \<Rightarrow> pyval \<Rightarrow> pyval \<Rightarrow> (pyval \<times> pyval) list" where
  "dict_setitem [] k v = [(k, v)]"
| "dict_setitem ((k', v') # d) k v =
     (if py_eq k' k then (k', v) # d else (k', v') # dict_setitem d k v)"

text \<open>\<^verbatim>\<open>d.get(k)\<close>, with \<open>None\<close> for an absent key.\<close>

fun dict_get :: "(pyval \<times> pyval) list \<Rightarrow> pyval \<Rightarrow> pyval option" where
  "dict_get [] k = None"
| "dict_get ((k', v') # d) k = (if py_eq k' k then Some v' else dict_get d k)"

text \<open>\<^verbatim>\<open>dict(items)\<close>: the items are stored one after the other.\<close>

fun dict_of_items :: "(pyval \<times> pyval) list \<Rightarrow> (pyval \<times> pyval) list \<Rightarrow> (pyval \<times> pyval) list" where
  "dict_of_items acc [] = acc"
| "dict_of_items acc ((k, v) # kvs) = dict_of_items (dict_setitem acc k v) kvs"

text \<open>No two keys of the list are equal.\<close>

fun py_distinct :: "pyval list \<Rightarrow> bool" where
  "py_distinct [] = True"
| "py_distinct (k # ks) = ((\<forall>k' \<in> set ks. \<not> py_eq k k') \<and> py_distinct ks)"

subsection \<open>UTF-8\<close>

text \<open>
  \<^verbatim>\<open>str.encode('utf-8')\<close> with the default error handler \<^verbatim>\<open>strict\<close>: one to four
  octets per code point; a surrogate code point (U+D800 to U+DFFF) raises
  \<open>UnicodeEncodeError\<close>.
\<close>

definition utf8_code_point :: "nat \<Rightarrow> exn + bytes" where
  "utf8_code_point c =
     (if c < 0x80 then Inr [char_of c]
      else if c < 0x800 then Inr [char_of (0xC0 + c div 0x40), char_of (0x80 + c mod 0x40)]
      else if 0xD800 \<le> c \<and> c \<le> 0xDFFF then Inl UnicodeEncodeError
      else if c < 0x10000 then
        Inr [char_of (0xE0 + c div 0x1000), char_of (0x80 + c div 0x40 mod 0x40),
             char_of (0x80 + c mod 0x40)]
      else
        Inr [char_of (0xF0 + c div 0x40000), char_of (0x80 + c div 0x1000 mod 0x40),
             char_of (0x80 + c div 0x40 mod 0x40), char_of (0x80 + c mod 0x40)])"

fun encode_utf8 :: "unicode \<Rightarrow> exn + bytes" where
  "encode_utf8 [] = Inr []"
| "encode_utf8 (c # cs) =
     (case utf8_code_point c of
        Inl e \<Rightarrow> Inl e
      | Inr b \<Rightarrow> (case encode_utf8 cs of Inl e \<Rightarrow> Inl e | Inr bs \<Rightarrow> Inr (b @ bs)))"

section \<open>The module\<close>

subsection \<open>\<^verbatim>\<open>tuple2dict\<close>\<close>

text \<open>
  A named tuple: the name of its class and its fields with their values, in the order
  of declaration.
\<close>

record 'v namedtuple =
  cls_name :: unicode
  nt_fields :: "(unicode \<times> 'v) list"

text \<open>
  \<^verbatim>\<open>data._asdict()\<close> is the dictionary built from the pairs of a field name and the
  value of the field.
\<close>

definition field_items :: "pyval namedtuple \<Rightarrow> (pyval \<times> pyval) list" where
  "field_items data = map (\<lambda>(n, v). (PStr n, v)) (nt_fields data)"

definition asdict :: "pyval namedtuple \<Rightarrow> (pyval \<times> pyval) list" where
  "asdict data = dict_of_items [] (field_items data)"

text \<open>
  \<^verbatim>\<open>result = dict(data._asdict()); result['type'] = data.__class__.__name__\<close>
\<close>

definition tuple2dict :: "pyval namedtuple \<Rightarrow> pyval" where
  "tuple2dict data =
     (let result = dict_of_items [] (asdict data);
          result = dict_setitem result (PStr (ascii ''type'')) (PStr (cls_name data))
      in PDict result)"

subsection \<open>\<^verbatim>\<open>strings2utf8\<close>\<close>

text \<open>
  The four \<^verbatim>\<open>isinstance\<close> tests in the order of the source, then \<^verbatim>\<open>return data\<close>.
  \<open>strings2utf8_seq\<close> is the comprehension over a list or a tuple,
  \<open>strings2utf8_items\<close> the dictionary comprehension: for each item the key is
  converted, then the value, and the pair is stored in the new dictionary.  A value is
  finite and contains no cycle, and the depth of the recursion is not bounded here; the
  model on a store of objects below bounds it.
\<close>

function (sequential) strings2utf8 :: "pyval \<Rightarrow> exn + pyval"
  and strings2utf8_seq :: "pyval list \<Rightarrow> exn + pyval list"
  and strings2utf8_items ::
    "(pyval \<times> pyval) list \<Rightarrow> (pyval \<times> pyval) list \<Rightarrow> exn + (pyval \<times> pyval) list"
where
  "strings2utf8 (PDict d) =
     (case strings2utf8_items [] d of Inl e \<Rightarrow> Inl e | Inr d' \<Rightarrow> Inr (PDict d'))"
| "strings2utf8 (PList vs) =
     (case strings2utf8_seq vs of Inl e \<Rightarrow> Inl e | Inr vs' \<Rightarrow> Inr (PList vs'))"
| "strings2utf8 (PTuple vs) =
     (case strings2utf8_seq vs of Inl e \<Rightarrow> Inl e | Inr vs' \<Rightarrow> Inr (PTuple vs'))"
| "strings2utf8 (PStr s) =
     (case encode_utf8 s of Inl e \<Rightarrow> Inl e | Inr b \<Rightarrow> Inr (PBytes b))"
| "strings2utf8 (PBytes b) = Inr (PBytes b)"
| "strings2utf8 (PInt i) = Inr (PInt i)"
| "strings2utf8 (PBool b) = Inr (PBool b)"
| "strings2utf8 PNone = Inr PNone"
| "strings2utf8 (PObj n) = Inr (PObj n)"
| "strings2utf8_seq [] = Inr []"
| "strings2utf8_seq (v # vs) =
     (case strings2utf8 v of
        Inl e \<Rightarrow> Inl e
      | Inr v' \<Rightarrow> (case strings2utf8_seq vs of Inl e \<Rightarrow> Inl e | Inr vs' \<Rightarrow> Inr (v' # vs')))"
| "strings2utf8_items acc [] = Inr acc"
| "strings2utf8_items acc ((k, v) # d) =
     (case strings2utf8 k of
        Inl e \<Rightarrow> Inl e
      | Inr k' \<Rightarrow>
          (case strings2utf8 v of
             Inl e \<Rightarrow> Inl e
           | Inr v' \<Rightarrow> strings2utf8_items (dict_setitem acc k' v') d))"
  by pat_completeness auto

termination
  by (relation "measure (\<lambda>x. case x of
        Inl v \<Rightarrow> size v
      | Inr (Inl vs) \<Rightarrow> size_list size vs
      | Inr (Inr (acc, d)) \<Rightarrow> size_list (size_prod size size) d)") auto

subsection \<open>\<^verbatim>\<open>line2dict\<close>\<close>

text \<open>
  A call \<^verbatim>\<open>f(arg)\<close>: the argument is evaluated first; when that raises, \<open>f\<close> is not
  entered and the exception leaves the enclosing expression.  Nothing in the module
  catches an exception.
\<close>

definition call :: "('a \<Rightarrow> exn + 'b) \<Rightarrow> exn + 'a \<Rightarrow> exn + 'b" where
  "call f arg = (case arg of Inl e \<Rightarrow> Inl e | Inr a \<Rightarrow> f a)"

text \<open>
  \<^verbatim>\<open>return strings2utf8(tuple2dict(parse_line(text)))\<close>.  The parser
  \<^verbatim>\<open>abp.filters.parse_line\<close> is imported from another module and is a parameter here:
  given a line (text or bytes) it returns a named tuple or raises.
\<close>

definition line2dict :: "(pyval \<Rightarrow> exn + pyval namedtuple) \<Rightarrow> pyval \<Rightarrow> exn + pyval" where
  "line2dict parse_line text =
     call strings2utf8 (call (\<lambda>data. Inr (tuple2dict data)) (parse_line text))"

text \<open>
  Modelled from the spec: the parser \<^verbatim>\<open>abp.filters.parse_line\<close> is not among the
  sources.  The spec says that it classifies the empty line as a record that has no
  fields, of the variant it calls \<^verbatim>\<open>empty\<close>.  What \<open>tuple2dict\<close> stores at
  \<^verbatim>\<open>'type'\<close> is the name of the class of the record, and the class of the parser for
  this variant is named \<^verbatim>\<open>EmptyLine\<close>.  \<open>empty_line\<close> is that record.
\<close>

definition empty_line :: "pyval namedtuple" where
  "empty_line = \<lparr>cls_name = ascii ''EmptyLine'', nt_fields = []\<rparr>"

text \<open>
  Modelled from the spec: what the spec says of the parser (which is not among the
  sources) on the empty line, as a property of a parser: for the empty line it returns
  the record \<open>empty_line\<close>.
\<close>

definition classifies_empty :: "(pyval \<Rightarrow> exn + pyval namedtuple) \<Rightarrow> bool" where
  "classifies_empty parse_line = (parse_line (PStr []) = Inr empty_line)"

text \<open>
  Modelled from the spec: a stand-in for the parser (which is not among the sources)
  that agrees with it on the empty line, where alone it is used; it classifies no other
  line.
\<close>

definition parse_empty_only :: "pyval \<Rightarrow> exn + pyval namedtuple" where
  "parse_empty_only text =
     (if text = PStr [] then Inr empty_line else Inl (Raised (ascii ''NotImplementedError'')))"

section \<open>Properties of values\<close>

text \<open>No text string occurs anywhere in the value (keys included).\<close>

function (sequential) no_text :: "pyval \<Rightarrow> bool"
  and no_text_seq :: "pyval list \<Rightarrow> bool"
  and no_text_items :: "(pyval \<times> pyval) list \<Rightarrow> bool"
where
  "no_text (PDict d) = no_text_items d"
| "no_text (PList vs) = no_text_seq vs"
| "no_text (PTuple vs) = no_text_seq vs"
| "no_text (PStr s) = False"
| "no_text (PBytes b) = True"
| "no_text (PInt i) = True"
| "no_text (PBool b) = True"
| "no_text PNone = True"
| "no_text (PObj n) = True"
| "no_text_seq [] = True"
| "no_text_seq (v # vs) = (no_text v \<and> no_text_seq vs)"
| "no_text_items [] = True"
| "no_text_items ((k, v) # d) = (no_text k \<and> no_text v \<and> no_text_items d)"
  by pat_completeness auto

termination
  by (relation "measure (\<lambda>x. case x of
        Inl v \<Rightarrow> size v
      | Inr (Inl vs) \<Rightarrow> size_list size vs
      | Inr (Inr d) \<Rightarrow> size_list (size_prod size size) d)") auto

text \<open>
  In every dictionary of the value no two keys are equal.  Every Python value has this
  property; the lists of the model need not.
\<close>

function (sequential) distinct_keys :: "pyval \<Rightarrow> bool"
  and distinct_keys_seq :: "pyval list \<Rightarrow> bool"
  and distinct_keys_items :: "(pyval \<times> pyval) list \<Rightarrow> bool"
where
  "distinct_keys (PDict d) = (py_distinct (map fst d) \<and> distinct_keys_items d)"
| "distinct_keys (PList vs) = distinct_keys_seq vs"
| "distinct_keys (PTuple vs) = distinct_keys_seq vs"
| "distinct_keys (PStr s) = True"
| "distinct_keys (PBytes b) = True"
| "distinct_keys (PInt i) = True"
| "distinct_keys (PBool b) = True"
| "distinct_keys PNone = True"
| "distinct_keys (PObj n) = True"
| "distinct_keys_seq [] = True"
| "distinct_keys_seq (v # vs) = (distinct_keys v \<and> distinct_keys_seq vs)"
| "distinct_keys_items [] = True"
| "distinct_keys_items ((k, v) # d) =
     (distinct_keys k \<and> distinct_keys v \<and> distinct_keys_items d)"
  by pat_completeness auto

termination
  by (relation "measure (\<lambda>x. case x of
        Inl v \<Rightarrow> size v
      | Inr (Inl vs) \<Rightarrow> size_list size vs
      | Inr (Inr d) \<Rightarrow> size_list (size_prod size size) d)") auto

text \<open>A surrogate code point, which UTF-8 cannot encode.\<close>

definition surrogate :: "nat \<Rightarrow> bool" where
  "surrogate c = (0xD800 \<le> c \<and> c \<le> 0xDFFF)"

text \<open>No text string of the value (keys included) holds a surrogate code point.\<close>

function (sequential) encodable :: "pyval \<Rightarrow> bool"
  and encodable_seq :: "pyval list \<Rightarrow> bool"
  and encodable_items :: "(pyval \<times> pyval) list \<Rightarrow> bool"
where
  "encodable (PDict d) = encodable_items d"
| "encodable (PList vs) = encodable_seq vs"
| "encodable (PTuple vs) = encodable_seq vs"
| "encodable (PStr s) = (\<not> list_ex surrogate s)"
| "encodable (PBytes b) = True"
| "encodable (PInt i) = True"
| "encodable (PBool b) = True"
| "encodable PNone = True"
| "encodable (PObj n) = True"
| "encodable_seq [] = True"
| "encodable_seq (v # vs) = (encodable v \<and> encodable_seq vs)"
| "encodable_items [] = True"
| "encodable_items ((k, v) # d) = (encodable k \<and> encodable v \<and> encodable_items d)"
  by pat_completeness auto

termination
  by (relation "measure (\<lambda>x. case x of
        Inl v \<Rightarrow> size v
      | Inr (Inl vs) \<Rightarrow> size_list size vs
      | Inr (Inr d) \<Rightarrow> size_list (size_prod size size) d)") auto

text \<open>
  The invariant of the data model, as a relation between a value \<open>x\<close> and the result
  \<open>y\<close>: \<open>y\<close> has the shape of \<open>x\<close> (the same kind of container, item by item and
  in the same order), each text leaf of \<open>x\<close> is in \<open>y\<close> the byte string of its UTF-8
  encoding, every other leaf of \<open>x\<close> is unchanged in \<open>y\<close>.
\<close>

function (sequential) encoded :: "pyval \<Rightarrow> pyval \<Rightarrow> bool"
  and encoded_seq :: "pyval list \<Rightarrow> pyval list \<Rightarrow> bool"
  and encoded_items :: "(pyval \<times> pyval) list \<Rightarrow> (pyval \<times> pyval) list \<Rightarrow> bool"
where
  "encoded (PDict d) y = (case y of PDict d' \<Rightarrow> encoded_items d d' | _ \<Rightarrow> False)"
| "encoded (PList vs) y = (case y of PList vs' \<Rightarrow> encoded_seq vs vs' | _ \<Rightarrow> False)"
| "encoded (PTuple vs) y = (case y of PTuple vs' \<Rightarrow> encoded_seq vs vs' | _ \<Rightarrow> False)"
| "encoded (PStr s) y = (case y of PBytes b \<Rightarrow> encode_utf8 s = Inr b | _ \<Rightarrow> False)"
| "encoded (PBytes b) y = (y = PBytes b)"
| "encoded (PInt i) y = (y = PInt i)"
| "encoded (PBool b) y = (y = PBool b)"
| "encoded PNone y = (y = PNone)"
| "encoded (PObj n) y = (y = PObj n)"
| "encoded_seq [] ys = (ys = [])"
| "encoded_seq (x # xs) ys =
     (case ys of [] \<Rightarrow> False | y # ys' \<Rightarrow> encoded x y \<and> encoded_seq xs ys')"
| "encoded_items [] d' = (d' = [])"
| "encoded_items ((k, v) # d) d' =
     (case d' of
        [] \<Rightarrow> False
      | (k', v') # d'' \<Rightarrow> encoded k k' \<and> encoded v v' \<and> encoded_items d d'')"
  by pat_completeness auto

termination
  by (relation "measure (\<lambda>x. case x of
        Inl (v, y) \<Rightarrow> size v
      | Inr (Inl (vs, ys)) \<Rightarrow> size_list size vs
      | Inr (Inr (d, d')) \<Rightarrow> size_list (size_prod size size) d)") auto

text \<open>
  The items of a dictionary with key and value converted, before they are stored in the
  new dictionary.
\<close>

fun encoded_pairs :: "(pyval \<times> pyval) list \<Rightarrow> exn + (pyval \<times> pyval) list" where
  "encoded_pairs [] = Inr []"
| "encoded_pairs ((k, v) # d) =
     (case strings2utf8 k of
        Inl e \<Rightarrow> Inl e
      | Inr k' \<Rightarrow>
          (case strings2utf8 v of
             Inl e \<Rightarrow> Inl e
           | Inr v' \<Rightarrow>
               (case encoded_pairs d of Inl e \<Rightarrow> Inl e | Inr kvs \<Rightarrow> Inr ((k', v') # kvs))))"

text \<open>
  In every dictionary of the value the converted keys are pairwise different: no two
  items are merged by the conversion.
\<close>

function (sequential) collision_free :: "pyval \<Rightarrow> bool"
  and collision_free_seq :: "pyval list \<Rightarrow> bool"
  and collision_free_items :: "(pyval \<times> pyval) list \<Rightarrow> bool"
where
  "collision_free (PDict d) =
     ((case encoded_pairs d of Inl e \<Rightarrow> True | Inr kvs \<Rightarrow> py_distinct (map fst kvs))
      \<and> collision_free_items d)"
| "collision_free (PList vs) = collision_free_seq vs"
| "collision_free (PTuple vs) = collision_free_seq vs"
| "collision_free (PStr s) = True"
| "collision_free (PBytes b) = True"
| "collision_free (PInt i) = True"
| "collision_free (PBool b) = True"
| "collision_free PNone = True"
| "collision_free (PObj n) = True"
| "collision_free_seq [] = True"
| "collision_free_seq (v # vs) = (collision_free v \<and> collision_free_seq vs)"
| "collision_free_items [] = True"
| "collision_free_items ((k, v) # d) =
     (collision_free k \<and> collision_free v \<and> collision_free_items d)"
  by pat_completeness auto

termination
  by (relation "measure (\<lambda>x. case x of
        Inl v \<Rightarrow> size v
      | Inr (Inl vs) \<Rightarrow> size_list size vs
      | Inr (Inr d) \<Rightarrow> size_list (size_prod size size) d)") auto

section \<open>The module on a store of objects\<close>

text \<open>
  Whether a call changes its argument cannot be said of values alone.  In this second
  model the containers that Python can change, dictionaries and lists, are objects in a
  store and a value refers to them by address; tuples, strings and numbers cannot be
  changed and stay values.  The store is the list of its objects, the address of an
  object is its index, and a new object is put at the end.
\<close>

datatype hval =
    HRef nat
  | HTuple "hval list"
  | HStr unicode
  | HBytes bytes
  | HInt int
  | HBool bool
  | HNone
  | HObj nat

datatype hobj = ODict "(hval \<times> hval) list" | OList "hval list"

type_synonym store = "hobj list"

text \<open>Equality of keys, as \<open>py_eq\<close>; a key is hashable and holds no reference.\<close>

fun hkey_norm :: "hval \<Rightarrow> hval" where
  "hkey_norm (HBool b) = HInt (if b then 1 else 0)"
| "hkey_norm (HTuple vs) = HTuple (map hkey_norm vs)"
| "hkey_norm v = v"

definition h_eq :: "hval \<Rightarrow> hval \<Rightarrow> bool" where
  "h_eq a b = (hkey_norm a = hkey_norm b)"

fun h_setitem :: "(hval \<times> hval) list \<Rightarrow> hval \<Rightarrow> hval \<Rightarrow> (hval \<times> hval) list" where
  "h_setitem [] k v = [(k, v)]"
| "h_setitem ((k', v') # d) k v =
     (if h_eq k' k then (k', v) # d else (k', v') # h_setitem d k v)"

fun h_of_items :: "(hval \<times> hval) list \<Rightarrow> (hval \<times> hval) list \<Rightarrow> (hval \<times> hval) list" where
  "h_of_items acc [] = acc"
| "h_of_items acc ((k, v) # kvs) = h_of_items (h_setitem acc k v) kvs"

text \<open>A new object, and the two statements that change an object of the store.\<close>

definition store_alloc :: "store \<Rightarrow> hobj \<Rightarrow> nat \<times> store" where
  "store_alloc st ob = (length st, st @ [ob])"

definition store_items :: "store \<Rightarrow> nat \<Rightarrow> (hval \<times> hval) list" where
  "store_items st a =
     (if a < length st then (case st ! a of ODict d \<Rightarrow> d | OList vs \<Rightarrow> []) else [])"

definition store_setitem :: "store \<Rightarrow> nat \<Rightarrow> hval \<Rightarrow> hval \<Rightarrow> store" where
  "store_setitem st r k v =
     (if r < length st then
        (case st ! r of ODict d \<Rightarrow> st[r := ODict (h_setitem d k v)] | OList vs \<Rightarrow> st)
      else st)"

definition store_append :: "store \<Rightarrow> nat \<Rightarrow> hval \<Rightarrow> store" where
  "store_append st r v =
     (if r < length st then
        (case st ! r of OList vs \<Rightarrow> st[r := OList (vs @ [v])] | ODict d \<Rightarrow> st)
      else st)"

text \<open>
  The objects at the addresses below \<open>m\<close> are the same in both stores, and the second
  store holds an object wherever the first does.
\<close>

definition unchanged_below :: "nat \<Rightarrow> store \<Rightarrow> store \<Rightarrow> bool" where
  "unchanged_below m st st' = (length st \<le> length st' \<and> take m st' = take m st)"

text \<open>
  \<open>tuple2dict\<close>: \<^verbatim>\<open>data._asdict()\<close> makes a dictionary, \<^verbatim>\<open>dict(...)\<close> makes a copy
  of it, and the assignment \<^verbatim>\<open>result['type'] = ...\<close> changes the copy.
\<close>

definition tuple2dict_st :: "store \<Rightarrow> hval namedtuple \<Rightarrow> hval \<times> store" where
  "tuple2dict_st st data =
     (let (a, st1) =
            store_alloc st (ODict (h_of_items [] (map (\<lambda>(n, v). (HStr n, v)) (nt_fields data))));
          (r, st2) = store_alloc st1 (ODict (h_of_items [] (store_items st1 a)));
          st3 = store_setitem st2 r (HStr (ascii ''type'')) (HStr (cls_name data))
      in (HRef r, st3))"

text \<open>
  \<open>strings2utf8\<close>.  The first argument bounds the depth of the recursion, which in Python
  ends with \<open>RecursionError\<close>; a store may hold a dictionary that contains itself.  A
  comprehension makes a new empty dictionary or list at the address \<open>r\<close> and then
  stores the converted items in it one by one; the items it runs over are those of the
  argument.  The result is the value returned or the exception raised, and the store
  after the call in both cases.  An address outside the store refers to no object, and
  no Python value holds one; the model returns it as it is.
\<close>

function (sequential) strings2utf8_st :: "nat \<Rightarrow> store \<Rightarrow> hval \<Rightarrow> (exn + hval) \<times> store"
  and strings2utf8_st_tuple :: "nat \<Rightarrow> store \<Rightarrow> hval list \<Rightarrow> (exn + hval list) \<times> store"
  and strings2utf8_st_list :: "nat \<Rightarrow> store \<Rightarrow> nat \<Rightarrow> hval list \<Rightarrow> (exn + hval) \<times> store"
  and strings2utf8_st_items ::
    "nat \<Rightarrow> store \<Rightarrow> nat \<Rightarrow> (hval \<times> hval) list \<Rightarrow> (exn + hval) \<times> store"
where
  "strings2utf8_st 0 st v = (Inl RecursionError, st)"
| "strings2utf8_st (Suc n) st (HRef a) =
     (if a < length st then
        (case st ! a of
           ODict d \<Rightarrow> strings2utf8_st_items n (st @ [ODict []]) (length st) d
         | OList vs \<Rightarrow> strings2utf8_st_list n (st @ [OList []]) (length st) vs)
      else (Inr (HRef a), st))"
| "strings2utf8_st (Suc n) st (HTuple vs) =
     (case strings2utf8_st_tuple n st vs of
        (Inl e, st') \<Rightarrow> (Inl e, st')
      | (Inr vs', st') \<Rightarrow> (Inr (HTuple vs'), st'))"
| "strings2utf8_st (Suc n) st (HStr s) =
     (case encode_utf8 s of Inl e \<Rightarrow> (Inl e, st) | Inr b \<Rightarrow> (Inr (HBytes b), st))"
| "strings2utf8_st (Suc n) st v = (Inr v, st)"
| "strings2utf8_st_tuple n st [] = (Inr [], st)"
| "strings2utf8_st_tuple n st (v # vs) =
     (case strings2utf8_st n st v of
        (Inl e, st1) \<Rightarrow> (Inl e, st1)
      | (Inr v', st1) \<Rightarrow>
          (case strings2utf8_st_tuple n st1 vs of
             (Inl e, st2) \<Rightarrow> (Inl e, st2)
           | (Inr vs', st2) \<Rightarrow> (Inr (v' # vs'), st2)))"
| "strings2utf8_st_list n st r [] = (Inr (HRef r), st)"
| "strings2utf8_st_list n st r (v # vs) =
     (case strings2utf8_st n st v of
        (Inl e, st1) \<Rightarrow> (Inl e, st1)
      | (Inr v', st1) \<Rightarrow> strings2utf8_st_list n (store_append st1 r v') r vs)"
| "strings2utf8_st_items n st r [] = (Inr (HRef r), st)"
| "strings2utf8_st_items n st r ((k, v) # d) =
     (case strings2utf8_st n st k of
        (Inl e, st1) \<Rightarrow> (Inl e, st1)
      | (Inr k', st1) \<Rightarrow>
          (case strings2utf8_st n st1 v of
             (Inl e, st2) \<Rightarrow> (Inl e, st2)
           | (Inr v', st2) \<Rightarrow> strings2utf8_st_items n (store_setitem st2 r k' v') r d))"
  by pat_completeness auto

termination
  by (relation "measures
       [\<lambda>x. case x of
            Inl (Inl (n, st, v)) \<Rightarrow> n
          | Inl (Inr (n, st, vs)) \<Rightarrow> n
          | Inr (Inl (n, st, r, vs)) \<Rightarrow> n
          | Inr (Inr (n, st, r, d)) \<Rightarrow> n,
        \<lambda>x. case x of
            Inl (Inl (n, st, v)) \<Rightarrow> size v
          | Inl (Inr (n, st, vs)) \<Rightarrow> size_list size vs
          | Inr (Inl (n, st, r, vs)) \<Rightarrow> size_list size vs
          | Inr (Inr (n, st, r, d)) \<Rightarrow> size_list (size_prod size size) d]") auto

subsection \<open>The value that a reference denotes\<close>

text \<open>A value that holds no reference; the keys of a dictionary are such values.\<close>

fun href_free :: "hval \<Rightarrow> bool" where
  "href_free (HRef a) = False"
| "href_free (HTuple vs) = list_all href_free vs"
| "href_free v = True"

text \<open>
  The Python value that \<open>v\<close> denotes in the store, found by following references to the
  depth \<open>n\<close> at most; \<open>None\<close> when the depth does not suffice (as for a container that
  contains itself), when an address is outside the store, or when a key of a dictionary
  holds a reference.
\<close>

function (sequential) denoted :: "nat \<Rightarrow> store \<Rightarrow> hval \<Rightarrow> pyval option"
  and denoted_seq :: "nat \<Rightarrow> store \<Rightarrow> hval list \<Rightarrow> pyval list option"
  and denoted_items :: "nat \<Rightarrow> store \<Rightarrow> (hval \<times> hval) list \<Rightarrow> (pyval \<times> pyval) list option"
where
  "denoted 0 st v = None"
| "denoted (Suc n) st (HRef a) =
     (if a < length st then
        (case st ! a of
           ODict d \<Rightarrow> (case denoted_items n st d of None \<Rightarrow> None | Some pd \<Rightarrow> Some (PDict pd))
         | OList vs \<Rightarrow> (case denoted_seq n st vs of None \<Rightarrow> None | Some xs \<Rightarrow> Some (PList xs)))
      else None)"
| "denoted (Suc n) st (HTuple vs) =
     (case denoted_seq n st vs of None \<Rightarrow> None | Some xs \<Rightarrow> Some (PTuple xs))"
| "denoted (Suc n) st (HStr s) = Some (PStr s)"
| "denoted (Suc n) st (HBytes b) = Some (PBytes b)"
| "denoted (Suc n) st (HInt i) = Some (PInt i)"
| "denoted (Suc n) st (HBool b) = Some (PBool b)"
| "denoted (Suc n) st HNone = Some PNone"
| "denoted (Suc n) st (HObj i) = Some (PObj i)"
| "denoted_seq n st [] = Some []"
| "denoted_seq n st (v # vs) =
     (case denoted n st v of
        None \<Rightarrow> None
      | Some x \<Rightarrow> (case denoted_seq n st vs of None \<Rightarrow> None | Some xs \<Rightarrow> Some (x # xs)))"
| "denoted_items n st [] = Some []"
| "denoted_items n st ((k, v) # d) =
     (if href_free k then
        (case denoted n st k of
           None \<Rightarrow> None
         | Some pk \<Rightarrow>
             (case denoted n st v of
                None \<Rightarrow> None
              | Some pv \<Rightarrow>
                  (case denoted_items n st d of None \<Rightarrow> None | Some pd \<Rightarrow> Some ((pk, pv) # pd))))
      else None)"
  by pat_completeness auto

termination
  by (relation "measures
       [\<lambda>x. case x of
            Inl (n, st, v) \<Rightarrow> n
          | Inr (Inl (n, st, vs)) \<Rightarrow> n
          | Inr (Inr (n, st, d)) \<Rightarrow> n,
        \<lambda>x. case x of
            Inl (n, st, v) \<Rightarrow> size v
          | Inr (Inl (n, st, vs)) \<Rightarrow> size_list size vs
          | Inr (Inr (n, st, d)) \<Rightarrow> size_list (size_prod size size) d]") auto

text \<open>The Python value of a value that holds no reference.\<close>

fun plain_value :: "hval \<Rightarrow> pyval" where
  "plain_value (HRef a) = PNone"
| "plain_value (HTuple vs) = PTuple (map plain_value vs)"
| "plain_value (HStr s) = PStr s"
| "plain_value (HBytes b) = PBytes b"
| "plain_value (HInt i) = PInt i"
| "plain_value (HBool b) = PBool b"
| "plain_value HNone = PNone"
| "plain_value (HObj i) = PObj i"

text \<open>
  The second store holds an object wherever the first does, and the same object at the
  addresses from \<open>m\<close> on.
\<close>

definition agrees_from :: "nat \<Rightarrow> store \<Rightarrow> store \<Rightarrow> bool" where
  "agrees_from m st st' =
     (length st \<le> length st' \<and> (\<forall>a. m \<le> a \<and> a < length st \<longrightarrow> st' ! a = st ! a))"

section \<open>Lemmas on dictionaries\<close>

lemma py_eq_refl [simp]: "py_eq a a"
  by (simp add: py_eq_def)

lemma py_eq_sym: "py_eq a b = py_eq b a"
  by (auto simp: py_eq_def)

lemma py_eq_trans: "py_eq a b \<Longrightarrow> py_eq b c \<Longrightarrow> py_eq a c"
  by (simp add: py_eq_def)

lemma py_eq_PStr [simp]: "py_eq (PStr s) k = (k = PStr s)" "py_eq k (PStr s) = (k = PStr s)"
  by (cases k; auto simp: py_eq_def)+

lemma py_eq_PBytes [simp]: "py_eq (PBytes s) k = (k = PBytes s)" "py_eq k (PBytes s) = (k = PBytes s)"
  by (cases k; auto simp: py_eq_def)+

lemma keys_setitem:
  "map fst (dict_setitem d k v) =
     (if \<exists>k' \<in> set (map fst d). py_eq k' k then map fst d else map fst d @ [k])"
proof (induction d)
  case Nil
  then show ?case by simp
next
  case (Cons a d)
  obtain k0 v0 where a: "a = (k0, v0)" by (cases a)
  show ?case
  proof (cases "py_eq k0 k")
    case True
    then show ?thesis by (simp add: a)
  next
    case False
    then show ?thesis using Cons by (simp add: a)
  qed
qed

lemma values_setitem:
  "(k', v') \<in> set (dict_setitem d k v) \<Longrightarrow> v' = v \<or> (\<exists>k0. (k0, v') \<in> set d)"
  by (induction d) (auto split: if_splits)

lemma setitem_absent:
  "\<forall>k' \<in> set (map fst d). \<not> py_eq k' k \<Longrightarrow> dict_setitem d k v = d @ [(k, v)]"
  by (induction d) auto

lemma py_distinct_append:
  "py_distinct (xs @ ys) =
     (py_distinct xs \<and> py_distinct ys \<and> (\<forall>a \<in> set xs. \<forall>b \<in> set ys. \<not> py_eq a b))"
  by (induction xs) auto

lemma py_distinct_setitem:
  "py_distinct (map fst d) \<Longrightarrow> py_distinct (map fst (dict_setitem d k v))"
  by (auto simp: keys_setitem py_distinct_append)

lemma dict_get_setitem:
  "dict_get (dict_setitem d k v) k' = (if py_eq k k' then Some v else dict_get d k')"
  by (induction d) (auto simp: py_eq_def)

lemma dict_get_None: "dict_get d k = None \<longleftrightarrow> (\<forall>k' \<in> set (map fst d). \<not> py_eq k' k)"
  by (induction d) (auto split: if_splits)

lemma py_distinct_of_items:
  "py_distinct (map fst acc) \<Longrightarrow> py_distinct (map fst (dict_of_items acc kvs))"
  by (induction acc kvs rule: dict_of_items.induct) (auto simp: py_distinct_setitem)

lemma of_items_distinct:
  "py_distinct (map fst kvs) \<Longrightarrow> \<forall>a \<in> set (map fst acc). \<forall>b \<in> set (map fst kvs). \<not> py_eq a b
   \<Longrightarrow> dict_of_items acc kvs = acc @ kvs"
proof (induction acc kvs rule: dict_of_items.induct)
  case (1 acc)
  then show ?case by simp
next
  case (2 acc k v kvs)
  have "dict_setitem acc k v = acc @ [(k, v)]"
    using 2(3) by (intro setitem_absent) auto
  moreover have "dict_of_items (acc @ [(k, v)]) kvs = (acc @ [(k, v)]) @ kvs"
    using 2 \<open>dict_setitem acc k v = acc @ [(k, v)]\<close> by auto
  ultimately show ?case by simp
qed

lemma strings2utf8_items_pairs:
  "strings2utf8_items acc d =
     (case encoded_pairs d of Inl e \<Rightarrow> Inl e | Inr kvs \<Rightarrow> Inr (dict_of_items acc kvs))"
  by (induction d arbitrary: acc) (auto split: sum.splits)

section \<open>Lemmas on the conversion\<close>

lemma encode_utf8_ok: "(\<exists>b. encode_utf8 s = Inr b) \<longleftrightarrow> \<not> list_ex surrogate s"
  by (induction s) (auto simp: utf8_code_point_def surrogate_def split: sum.splits)

lemma encode_utf8_error: "encode_utf8 s = Inl e \<Longrightarrow> e = UnicodeEncodeError"
  by (induction s) (auto simp: utf8_code_point_def split: sum.splits if_splits)

lemma strings2utf8_total:
  shows "encodable x \<Longrightarrow> \<exists>y. strings2utf8 x = Inr y"
    and "encodable_seq vs \<Longrightarrow> \<exists>ys. strings2utf8_seq vs = Inr ys"
    and "encodable_items d \<Longrightarrow> \<exists>kvs. encoded_pairs d = Inr kvs"
proof (induction x and vs and d rule: encodable_encodable_seq_encodable_items.induct)
  case (1 d)
  then show ?case by (auto simp: strings2utf8_items_pairs)
next
  case (4 s)
  then show ?case using encode_utf8_ok [of s] by auto
qed auto

lemma no_text_setitem:
  "no_text_items d \<Longrightarrow> no_text k \<Longrightarrow> no_text v \<Longrightarrow> no_text_items (dict_setitem d k v)"
  by (induction d) auto

lemma no_text_of_items:
  "no_text_items acc \<Longrightarrow> no_text_items kvs \<Longrightarrow> no_text_items (dict_of_items acc kvs)"
  by (induction acc kvs rule: dict_of_items.induct) (auto simp: no_text_setitem)

lemma distinct_keys_setitem:
  "distinct_keys_items d \<Longrightarrow> distinct_keys k \<Longrightarrow> distinct_keys v
   \<Longrightarrow> distinct_keys_items (dict_setitem d k v)"
  by (induction d) auto

lemma distinct_keys_of_items:
  "distinct_keys_items acc \<Longrightarrow> distinct_keys_items kvs
   \<Longrightarrow> distinct_keys_items (dict_of_items acc kvs)"
  by (induction acc kvs rule: dict_of_items.induct) (auto simp: distinct_keys_setitem)

lemma strings2utf8_result:
  shows "strings2utf8 x = Inr y \<Longrightarrow> no_text y \<and> distinct_keys y"
    and "strings2utf8_seq vs = Inr ys \<Longrightarrow> no_text_seq ys \<and> distinct_keys_seq ys"
    and "encoded_pairs d = Inr kvs \<Longrightarrow> no_text_items kvs \<and> distinct_keys_items kvs"
proof (induction x and vs and d arbitrary: y and ys and kvs rule: no_text_no_text_seq_no_text_items.induct)
  case (1 d)
  from 1(2) obtain kvs where kvs: "encoded_pairs d = Inr kvs" and y: "y = PDict (dict_of_items [] kvs)"
    by (auto simp: strings2utf8_items_pairs split: sum.splits)
  from 1(1) [OF kvs] have "no_text_items kvs" "distinct_keys_items kvs" by auto
  then show ?case
    using py_distinct_of_items [of "[]" kvs]
    by (simp add: y no_text_of_items distinct_keys_of_items)
qed (auto split: sum.splits)

lemma strings2utf8_fixed:
  shows "no_text y \<Longrightarrow> distinct_keys y \<Longrightarrow> strings2utf8 y = Inr y"
    and "no_text_seq ys \<Longrightarrow> distinct_keys_seq ys \<Longrightarrow> strings2utf8_seq ys = Inr ys"
    and "no_text_items d \<Longrightarrow> distinct_keys_items d \<Longrightarrow> encoded_pairs d = Inr d"
proof (induction y and ys and d rule: no_text_no_text_seq_no_text_items.induct)
  case (1 d)
  then show ?case
    using of_items_distinct [of d "[]"] by (simp add: strings2utf8_items_pairs)
qed auto

lemma strings2utf8_encoded:
  shows "collision_free x \<Longrightarrow> strings2utf8 x = Inr y \<Longrightarrow> encoded x y"
    and "collision_free_seq vs \<Longrightarrow> strings2utf8_seq vs = Inr ys \<Longrightarrow> encoded_seq vs ys"
    and "collision_free_items d \<Longrightarrow> encoded_pairs d = Inr kvs \<Longrightarrow> encoded_items d kvs"
proof (induction x and vs and d arbitrary: y and ys and kvs rule: no_text_no_text_seq_no_text_items.induct)
  case (1 d)
  from 1(3) obtain kvs where kvs: "encoded_pairs d = Inr kvs" and y: "y = PDict (dict_of_items [] kvs)"
    by (auto simp: strings2utf8_items_pairs split: sum.splits)
  from 1(2) kvs have "py_distinct (map fst kvs)" "collision_free_items d" by auto
  then show ?case
    using 1(1) [OF _ kvs] of_items_distinct [of kvs "[]"] by (simp add: y)
qed (auto split: sum.splits)

section \<open>Lookup in a dictionary built from items, and its size\<close>

lemma dict_get_append:
  "dict_get (xs @ ys) k = (case dict_get xs k of Some v \<Rightarrow> Some v | None \<Rightarrow> dict_get ys k)"
  by (induction xs) auto

lemma dict_get_of_items:
  "dict_get (dict_of_items acc kvs) k =
     (case dict_get (rev kvs) k of Some v \<Rightarrow> Some v | None \<Rightarrow> dict_get acc k)"
  by (induction acc kvs rule: dict_of_items.induct)
    (auto simp: dict_get_append dict_get_setitem split: option.splits)

lemma dict_get_Some: "dict_get d k = Some v \<Longrightarrow> \<exists>k'. (k', v) \<in> set d \<and> py_eq k' k"
  by (induction d) (auto split: if_splits)

lemma dict_get_member: "(k, v) \<in> set d \<Longrightarrow> dict_get d k \<noteq> None"
  by (induction d) auto

lemma key_of_items:
  "(k, v) \<in> set kvs \<Longrightarrow> dict_get (dict_of_items acc kvs) k \<noteq> None"
  using dict_get_member [of k v "rev kvs"] by (auto simp: dict_get_of_items split: option.splits)

lemma keys_setitem_subset: "fst ` set (dict_setitem d k v) \<subseteq> insert k (fst ` set d)"
  using keys_setitem [of d k v, THEN arg_cong, of set] by (auto split: if_splits)

lemma values_setitem_subset: "snd ` set (dict_setitem d k v) \<subseteq> insert v (snd ` set d)"
proof
  fix x assume "x \<in> snd ` set (dict_setitem d k v)"
  then obtain k' where "(k', x) \<in> set (dict_setitem d k v)" by auto
  from values_setitem [OF this] show "x \<in> insert v (snd ` set d)" by force
qed

lemma keys_of_items_subset:
  "fst ` set (dict_of_items acc kvs) \<subseteq> fst ` set acc \<union> fst ` set kvs"
proof (induction acc kvs rule: dict_of_items.induct)
  case (1 acc)
  then show ?case by simp
next
  case (2 acc k v kvs)
  have "fst ` set (dict_of_items acc ((k, v) # kvs))
          \<subseteq> fst ` set (dict_setitem acc k v) \<union> fst ` set kvs"
    using 2 by simp
  also have "\<dots> \<subseteq> insert k (fst ` set acc) \<union> fst ` set kvs"
    using keys_setitem_subset [of acc k v] by blast
  finally show ?case by simp
qed

lemma values_of_items_subset:
  "snd ` set (dict_of_items acc kvs) \<subseteq> snd ` set acc \<union> snd ` set kvs"
proof (induction acc kvs rule: dict_of_items.induct)
  case (1 acc)
  then show ?case by simp
next
  case (2 acc k v kvs)
  have "snd ` set (dict_of_items acc ((k, v) # kvs))
          \<subseteq> snd ` set (dict_setitem acc k v) \<union> snd ` set kvs"
    using 2 by simp
  also have "\<dots> \<subseteq> insert v (snd ` set acc) \<union> snd ` set kvs"
    using values_setitem_subset [of acc k v] by blast
  finally show ?case by simp
qed

lemma length_setitem:
  "length (dict_setitem d k v) =
     (if \<exists>k' \<in> set (map fst d). py_eq k' k then length d else Suc (length d))"
  using keys_setitem [of d k v, THEN arg_cong, of length] by (simp split: if_splits)

lemma length_of_items_le: "length (dict_of_items acc kvs) \<le> length acc + length kvs"
  by (induction acc kvs rule: dict_of_items.induct) (auto simp: length_setitem split: if_splits)

lemma length_of_items_eq:
  "length (dict_of_items acc kvs) = length acc + length kvs \<longleftrightarrow>
     py_distinct (map fst kvs) \<and> (\<forall>a \<in> set (map fst acc). \<forall>b \<in> set (map fst kvs). \<not> py_eq a b)"
proof (induction acc kvs rule: dict_of_items.induct)
  case (1 acc)
  then show ?case by simp
next
  case (2 acc k v kvs)
  show ?case
  proof (cases "\<exists>k' \<in> set (map fst acc). py_eq k' k")
    case True
    then have "length (dict_setitem acc k v) = length acc" by (simp add: length_setitem)
    then have "length (dict_of_items acc ((k, v) # kvs)) \<le> length acc + length kvs"
      using length_of_items_le [of "dict_setitem acc k v" kvs] by simp
    then show ?thesis using True by auto
  next
    case False
    then have "dict_setitem acc k v = acc @ [(k, v)]" by (intro setitem_absent) auto
    then show ?thesis using 2 False by (auto simp: py_eq_sym)
  qed
qed

section \<open>Further lemmas on the conversion\<close>

lemma encoded_pairs_length: "encoded_pairs d = Inr kvs \<Longrightarrow> length kvs = length d"
  by (induction d arbitrary: kvs) (auto split: sum.splits)

lemma encoded_pairs_forward:
  "encoded_pairs d = Inr kvs \<Longrightarrow> (k, v) \<in> set d \<Longrightarrow>
     \<exists>k' v'. strings2utf8 k = Inr k' \<and> strings2utf8 v = Inr v' \<and> (k', v') \<in> set kvs"
  by (induction d arbitrary: kvs) (auto split: sum.splits)

lemma encoded_pairs_backward:
  "encoded_pairs d = Inr kvs \<Longrightarrow> (k', v') \<in> set kvs \<Longrightarrow>
     \<exists>k v. (k, v) \<in> set d \<and> strings2utf8 k = Inr k' \<and> strings2utf8 v = Inr v'"
  by (induction d arbitrary: kvs) (fastforce split: sum.splits)+

lemma strings2utf8_encodable:
  shows "strings2utf8 x = Inr y \<Longrightarrow> encodable x"
    and "strings2utf8_seq vs = Inr ys \<Longrightarrow> encodable_seq vs"
    and "encoded_pairs d = Inr kvs \<Longrightarrow> encodable_items d"
proof (induction x and vs and d arbitrary: y and ys and kvs
    rule: encodable_encodable_seq_encodable_items.induct)
  case (1 d)
  then show ?case by (auto simp: strings2utf8_items_pairs split: sum.splits)
next
  case (4 s)
  then show ?case using encode_utf8_ok [of s] by (auto split: sum.splits)
qed (auto split: sum.splits)

lemma strings2utf8_raises:
  shows "strings2utf8 x = Inl e \<Longrightarrow> e = UnicodeEncodeError"
    and "strings2utf8_seq vs = Inl e \<Longrightarrow> e = UnicodeEncodeError"
    and "encoded_pairs d = Inl e \<Longrightarrow> e = UnicodeEncodeError"
proof (induction x and vs and d rule: encodable_encodable_seq_encodable_items.induct)
  case (1 d)
  then show ?case by (auto simp: strings2utf8_items_pairs split: sum.splits)
next
  case (4 s)
  then show ?case using encode_utf8_error [of s e] by (auto split: sum.splits)
qed (auto split: sum.splits)

lemma strings2utf8_seq_hashable:
  "(\<And>v y. v \<in> set vs \<Longrightarrow> hashable v \<Longrightarrow> strings2utf8 v = Inr y \<Longrightarrow> hashable y)
   \<Longrightarrow> list_all hashable vs \<Longrightarrow> strings2utf8_seq vs = Inr ys \<Longrightarrow> list_all hashable ys"
proof (induction vs arbitrary: ys)
  case Nil
  then show ?case by simp
next
  case (Cons v vs)
  from Cons.prems(3) obtain y ys' where y: "strings2utf8 v = Inr y"
    and ys': "strings2utf8_seq vs = Inr ys'" and ys: "ys = y # ys'"
    by (auto split: sum.splits)
  have "hashable y" using Cons.prems(1) [of v y] Cons.prems(2) y by simp
  moreover have "list_all hashable ys'"
  proof (rule Cons.IH [of ys'])
    show "hashable y'" if "v' \<in> set vs" "hashable v'" "strings2utf8 v' = Inr y'" for v' y'
      using Cons.prems(1) [of v' y'] that by simp
    show "list_all hashable vs" using Cons.prems(2) by simp
    show "strings2utf8_seq vs = Inr ys'" by (rule ys')
  qed
  ultimately show ?case by (simp add: ys)
qed

lemma strings2utf8_hashable: "hashable x \<Longrightarrow> strings2utf8 x = Inr y \<Longrightarrow> hashable y"
proof (induction x arbitrary: y rule: hashable.induct)
  case (3 vs)
  from 3(3) obtain ys where ys: "strings2utf8_seq vs = Inr ys" and y: "y = PTuple ys"
    by (auto split: sum.splits)
  have "list_all hashable ys"
    using strings2utf8_seq_hashable [of vs ys] 3(1) 3(2) ys by simp
  then show ?case by (simp add: y)
qed (auto split: sum.splits)

lemma hashable_seq_distinct_keys:
  "(\<And>v. v \<in> set vs \<Longrightarrow> hashable v \<Longrightarrow> distinct_keys v) \<Longrightarrow> list_all hashable vs
   \<Longrightarrow> distinct_keys_seq vs"
  by (induction vs) auto

lemma hashable_distinct_keys: "hashable k \<Longrightarrow> distinct_keys k"
proof (induction k rule: hashable.induct)
  case (3 vs)
  then show ?case using hashable_seq_distinct_keys [of vs] by simp
qed auto

lemma strings2utf8_plain_key: "hashable k \<Longrightarrow> no_text k \<Longrightarrow> strings2utf8 k = Inr k"
  by (simp add: hashable_distinct_keys strings2utf8_fixed(1))

text \<open>The facts that evaluate the model on a concrete value.\<close>

lemmas eval_simps =
  field_items_def ascii_def utf8_code_point_def char_of_def bit_Suc_0_iff py_eq_def surrogate_def

section \<open>Claims on \<^verbatim>\<open>strings2utf8\<close>\<close>

text \<open>
  C4: \<open>strings2utf8\<close> is idempotent.  Converting the result of a conversion gives that
  result again (and when the first conversion raises, so does the composition, with the
  same exception); a value that holds no text is returned unchanged.
\<close>

theorem strings2utf8_idempotent:
  "call strings2utf8 (strings2utf8 x) = strings2utf8 x
   \<and> (strings2utf8 x = Inr y \<longrightarrow> strings2utf8 y = Inr y)
   \<and> (no_text z \<and> distinct_keys z \<longrightarrow> strings2utf8 z = Inr z)"
proof (intro conjI impI)
  show "strings2utf8 y = Inr y" if "strings2utf8 x = Inr y"
    using strings2utf8_result(1) [OF that] by (simp add: strings2utf8_fixed(1))
  then show "call strings2utf8 (strings2utf8 x) = strings2utf8 x"
    by (cases "strings2utf8 x") (auto simp: call_def strings2utf8_result(1) strings2utf8_fixed(1))
  show "strings2utf8 z = Inr z" if "no_text z \<and> distinct_keys z"
    using that by (simp add: strings2utf8_fixed(1))
qed

theorem strings2utf8_idempotent_witness:
  "strings2utf8 (PDict [(PStr (ascii ''a''), PList [PStr [0xFC], PInt 1])])
     = Inr (PDict [(PBytes ''a'', PList [PBytes [CHR 0xC3, CHR 0xBC], PInt 1])])
   \<and> strings2utf8 (PDict [(PBytes ''a'', PList [PBytes [CHR 0xC3, CHR 0xBC], PInt 1])])
     = Inr (PDict [(PBytes ''a'', PList [PBytes [CHR 0xC3, CHR 0xBC], PInt 1])])
   \<and> no_text (PTuple [PBytes ''b'', PBool True])
   \<and> distinct_keys (PTuple [PBytes ''b'', PBool True])
   \<and> strings2utf8 (PTuple [PBytes ''b'', PBool True]) = Inr (PTuple [PBytes ''b'', PBool True])"
  using strings2utf8_idempotent
    [of "PDict [(PStr (ascii ''a''), PList [PStr [0xFC], PInt 1])]"
        "PDict [(PBytes ''a'', PList [PBytes [CHR 0xC3, CHR 0xBC], PInt 1])]"
        "PTuple [PBytes ''b'', PBool True]"]
  by (simp add: eval_simps)

text \<open>
  C1, amended: let no text string of \<open>x\<close> hold a surrogate code point, and let the
  converted keys of each dictionary of \<open>x\<close> be pairwise different.  Then
  \<open>strings2utf8\<close> returns a value \<open>y\<close> of the shape of \<open>x\<close> (the same containers
  with the same items in the same order), in which each text leaf of \<open>x\<close> is replaced by
  its UTF-8 byte string and every other leaf is unchanged; \<open>y\<close> holds no text.
\<close>

theorem strings2utf8_shape:
  assumes "encodable x" and "collision_free x"
  shows "\<exists>y. strings2utf8 x = Inr y \<and> encoded x y \<and> no_text y"
proof -
  from strings2utf8_total(1) [OF assms(1)] obtain y where y: "strings2utf8 x = Inr y" ..
  then show ?thesis
    using strings2utf8_encoded(1) [OF assms(2) y] strings2utf8_result(1) [OF y] by simp
qed

theorem strings2utf8_shape_witness:
  "encodable (PDict [(PStr (ascii ''k''), PList [PStr [0xFC], PTuple [PInt 1, PBool True]])])
   \<and> collision_free (PDict [(PStr (ascii ''k''), PList [PStr [0xFC], PTuple [PInt 1, PBool True]])])
   \<and> strings2utf8 (PDict [(PStr (ascii ''k''), PList [PStr [0xFC], PTuple [PInt 1, PBool True]])])
     = Inr (PDict [(PBytes ''k'', PList [PBytes [CHR 0xC3, CHR 0xBC], PTuple [PInt 1, PBool True]])])
   \<and> encoded (PDict [(PStr (ascii ''k''), PList [PStr [0xFC], PTuple [PInt 1, PBool True]])])
       (PDict [(PBytes ''k'', PList [PBytes [CHR 0xC3, CHR 0xBC], PTuple [PInt 1, PBool True]])])"
  using strings2utf8_shape
    [of "PDict [(PStr (ascii ''k''), PList [PStr [0xFC], PTuple [PInt 1, PBool True]])]"]
  by (simp add: eval_simps)

text \<open>
  Without the two conditions the claim fails: the items of the keys \<^verbatim>\<open>'a'\<close> and
  \<^verbatim>\<open>b'a'\<close> are merged into one, and a lone surrogate raises.
\<close>

theorem strings2utf8_shape_counterexample:
  "strings2utf8 (PDict [(PStr (ascii ''a''), PInt 1), (PBytes ''a'', PInt 2)])
     = Inr (PDict [(PBytes ''a'', PInt 2)])
   \<and> \<not> encoded (PDict [(PStr (ascii ''a''), PInt 1), (PBytes ''a'', PInt 2)])
         (PDict [(PBytes ''a'', PInt 2)])
   \<and> strings2utf8 (PList [PStr [0x61, 0xDC80]]) = Inl UnicodeEncodeError"
  by (simp add: eval_simps)

text \<open>
  C5, amended: \<open>strings2utf8\<close> returns a value exactly when no text string of its
  argument holds a surrogate code point, and raises \<open>UnicodeEncodeError\<close> otherwise;
  an object of an unrecognised kind is returned as it is; \<open>tuple2dict\<close> returns a
  dictionary for every named tuple.
\<close>

theorem strings2utf8_total_iff:
  "((\<exists>y. strings2utf8 x = Inr y) \<longleftrightarrow> encodable x)
   \<and> (strings2utf8 x = Inl e \<longrightarrow> e = UnicodeEncodeError)
   \<and> strings2utf8 (PObj n) = Inr (PObj n)
   \<and> (\<exists>d. tuple2dict data = PDict d)"
  using strings2utf8_total(1) [of x] strings2utf8_encodable(1) [of x]
    strings2utf8_raises(1) [of x e]
  by (auto simp: tuple2dict_def Let_def)

theorem strings2utf8_total_iff_witness:
  "encodable (PList [PStr [0x20AC], PObj 7])
   \<and> strings2utf8 (PList [PStr [0x20AC], PObj 7])
       = Inr (PList [PBytes [CHR 0xE2, CHR 0x82, CHR 0xAC], PObj 7])
   \<and> \<not> encodable (PStr [0xD800])"
  using strings2utf8_total_iff [of "PList [PStr [0x20AC], PObj 7]" UnicodeEncodeError 7 empty_line]
  by (simp add: eval_simps)

text \<open>The text \<^verbatim>\<open>'\ud800'\<close> is a Python string, and converting it raises.\<close>

theorem strings2utf8_surrogate_raises:
  "strings2utf8 (PStr [0xD800]) = Inl UnicodeEncodeError"
  by (simp add: eval_simps)

text \<open>
  C10: two keys that become equal by the conversion are merged into one item, as for the
  dictionary of the text key \<^verbatim>\<open>'a'\<close> and the bytes key \<^verbatim>\<open>b'a'\<close>.  The result never
  has more items than the argument, and it has as many exactly when the converted keys
  are pairwise different; then the result is the list of the converted items.
\<close>

theorem strings2utf8_merges_keys:
  "strings2utf8 (PDict [(PStr (ascii ''a''), PInt 1), (PBytes ''a'', PInt 2)])
     = Inr (PDict [(PBytes ''a'', PInt 2)])
   \<and> (strings2utf8 (PDict d) = Inr y \<longrightarrow>
        (\<exists>d' kvs. y = PDict d' \<and> encoded_pairs d = Inr kvs \<and> length kvs = length d
           \<and> length d' \<le> length d
           \<and> (length d' = length d \<longleftrightarrow> py_distinct (map fst kvs))
           \<and> (py_distinct (map fst kvs) \<longrightarrow> d' = kvs)))"
proof (intro conjI impI)
  show "strings2utf8 (PDict [(PStr (ascii ''a''), PInt 1), (PBytes ''a'', PInt 2)])
     = Inr (PDict [(PBytes ''a'', PInt 2)])"
    by (simp add: eval_simps)
  assume "strings2utf8 (PDict d) = Inr y"
  then obtain kvs where kvs: "encoded_pairs d = Inr kvs" and y: "y = PDict (dict_of_items [] kvs)"
    by (auto simp: strings2utf8_items_pairs split: sum.splits)
  have len: "length kvs = length d" by (rule encoded_pairs_length [OF kvs])
  show "\<exists>d' kvs. y = PDict d' \<and> encoded_pairs d = Inr kvs \<and> length kvs = length d
           \<and> length d' \<le> length d
           \<and> (length d' = length d \<longleftrightarrow> py_distinct (map fst kvs))
           \<and> (py_distinct (map fst kvs) \<longrightarrow> d' = kvs)"
    using kvs y len length_of_items_le [of "[]" kvs] length_of_items_eq [of "[]" kvs]
      of_items_distinct [of kvs "[]"]
    by auto
qed

theorem strings2utf8_merges_keys_witness:
  "strings2utf8 (PDict [(PStr (ascii ''a''), PInt 1), (PBytes ''b'', PInt 2)])
     = Inr (PDict [(PBytes ''a'', PInt 1), (PBytes ''b'', PInt 2)])
   \<and> encoded_pairs [(PStr (ascii ''a''), PInt 1), (PBytes ''b'', PInt 2)]
     = Inr [(PBytes ''a'', PInt 1), (PBytes ''b'', PInt 2)]
   \<and> py_distinct (map fst [(PBytes ''a'', PInt 1), (PBytes ''b'', PInt 2)])"
  using strings2utf8_merges_keys
    [of "[(PStr (ascii ''a''), PInt 1), (PBytes ''b'', PInt 2)]"
        "PDict [(PBytes ''a'', PInt 1), (PBytes ''b'', PInt 2)]"]
  by (simp add: eval_simps)

lemma no_text_items_key: "no_text_items d \<Longrightarrow> (PStr s, v) \<notin> set d"
  by (induction d) auto

text \<open>
  C6: the conversion of a dictionary \<open>d\<close> that returns, returns a dictionary \<open>d'\<close>.
  The conversion of each key of \<open>d\<close> is a key of \<open>d'\<close>; each key of \<open>d'\<close> is the
  conversion of a key of \<open>d\<close> and each value of \<open>d'\<close> the conversion of a value of
  \<open>d\<close>; what \<open>d'\<close> holds at a key is the conversion of the value of an item of \<open>d\<close>
  whose converted key equals that key.  A text key of \<open>d\<close> is in \<open>d'\<close> as its UTF-8
  bytes and no longer as text; a key that holds no text (a number, a byte string, a
  tuple of such) is a key of \<open>d'\<close> as it is.
\<close>

theorem strings2utf8_dict:
  assumes "strings2utf8 (PDict d) = Inr y"
  shows "\<exists>d'. y = PDict d'
    \<and> (\<forall>(k, v) \<in> set d. \<exists>k' v'.
          strings2utf8 k = Inr k' \<and> strings2utf8 v = Inr v' \<and> dict_get d' k' \<noteq> None)
    \<and> (\<forall>(k', v') \<in> set d'.
          (\<exists>k \<in> fst ` set d. strings2utf8 k = Inr k') \<and> (\<exists>v \<in> snd ` set d. strings2utf8 v = Inr v'))
    \<and> (\<forall>k' v'. dict_get d' k' = Some v' \<longrightarrow>
          (\<exists>(k, v) \<in> set d. \<exists>k''. strings2utf8 k = Inr k'' \<and> py_eq k'' k' \<and> strings2utf8 v = Inr v'))
    \<and> (\<forall>s v. (PStr s, v) \<in> set d \<longrightarrow>
          (\<exists>b. encode_utf8 s = Inr b \<and> dict_get d' (PBytes b) \<noteq> None) \<and> dict_get d' (PStr s) = None)
    \<and> (\<forall>k v. (k, v) \<in> set d \<and> hashable k \<and> no_text k \<longrightarrow> dict_get d' k \<noteq> None)"
proof -
  from assms obtain kvs where kvs: "encoded_pairs d = Inr kvs"
    and y: "y = PDict (dict_of_items [] kvs)"
    by (auto simp: strings2utf8_items_pairs split: sum.splits)
  define d' where "d' = dict_of_items [] kvs"
  have fwd: "\<exists>k' v'. strings2utf8 k = Inr k' \<and> strings2utf8 v = Inr v' \<and> dict_get d' k' \<noteq> None"
    if "(k, v) \<in> set d" for k v
  proof -
    from encoded_pairs_forward [OF kvs that] obtain k' v' where
      "strings2utf8 k = Inr k'" "strings2utf8 v = Inr v'" "(k', v') \<in> set kvs" by blast
    then show ?thesis using key_of_items [of k' v' kvs "[]"] by (auto simp: d'_def)
  qed
  have bwd: "(\<exists>k \<in> fst ` set d. strings2utf8 k = Inr k') \<and> (\<exists>v \<in> snd ` set d. strings2utf8 v = Inr v')"
    if "(k', v') \<in> set d'" for k' v'
  proof -
    have "k' \<in> fst ` set kvs"
      using that keys_of_items_subset [of "[]" kvs] by (force simp: d'_def)
    then obtain v0 where "(k', v0) \<in> set kvs" by auto
    from encoded_pairs_backward [OF kvs this]
    have 1: "\<exists>k \<in> fst ` set d. strings2utf8 k = Inr k'" by force
    have "v' \<in> snd ` set kvs"
      using that values_of_items_subset [of "[]" kvs] by (force simp: d'_def)
    then obtain k0 where "(k0, v') \<in> set kvs" by auto
    from encoded_pairs_backward [OF kvs this]
    have 2: "\<exists>v \<in> snd ` set d. strings2utf8 v = Inr v'" by force
    from 1 2 show ?thesis ..
  qed
  have look: "\<exists>(k, v) \<in> set d. \<exists>k''. strings2utf8 k = Inr k'' \<and> py_eq k'' k' \<and> strings2utf8 v = Inr v'"
    if "dict_get d' k' = Some v'" for k' v'
  proof -
    from that have "dict_get (rev kvs) k' = Some v'"
      by (simp add: d'_def dict_get_of_items split: option.splits)
    from dict_get_Some [OF this] obtain k'' where k'': "(k'', v') \<in> set kvs" "py_eq k'' k'"
      by auto
    from encoded_pairs_backward [OF kvs k''(1)] k''(2) show ?thesis by blast
  qed
  have res: "no_text_items d'"
    using strings2utf8_result(1) [OF assms] by (simp add: y d'_def)
  have text_key: "(\<exists>b. encode_utf8 s = Inr b \<and> dict_get d' (PBytes b) \<noteq> None) \<and> dict_get d' (PStr s) = None"
    if "(PStr s, v) \<in> set d" for s v
  proof
    from fwd [OF that] show "\<exists>b. encode_utf8 s = Inr b \<and> dict_get d' (PBytes b) \<noteq> None"
      by (auto split: sum.splits)
    show "dict_get d' (PStr s) = None"
      using no_text_items_key [OF res, of s] by (auto simp: dict_get_None)
  qed
  have leaf: "dict_get d' k \<noteq> None" if "(k, v) \<in> set d" "hashable k" "no_text k" for k v
    using fwd [OF that(1)] strings2utf8_plain_key [OF that(2,3)] by auto
  have 1: "\<forall>(k, v) \<in> set d. \<exists>k' v'.
          strings2utf8 k = Inr k' \<and> strings2utf8 v = Inr v' \<and> dict_get d' k' \<noteq> None"
    using fwd by blast
  have 2: "\<forall>(k', v') \<in> set d'.
          (\<exists>k \<in> fst ` set d. strings2utf8 k = Inr k') \<and> (\<exists>v \<in> snd ` set d. strings2utf8 v = Inr v')"
    using bwd by blast
  have 3: "\<forall>k' v'. dict_get d' k' = Some v' \<longrightarrow>
          (\<exists>(k, v) \<in> set d. \<exists>k''. strings2utf8 k = Inr k'' \<and> py_eq k'' k' \<and> strings2utf8 v = Inr v')"
    using look by blast
  have 4: "\<forall>s v. (PStr s, v) \<in> set d \<longrightarrow>
          (\<exists>b. encode_utf8 s = Inr b \<and> dict_get d' (PBytes b) \<noteq> None) \<and> dict_get d' (PStr s) = None"
    using text_key by blast
  have 5: "\<forall>k v. (k, v) \<in> set d \<and> hashable k \<and> no_text k \<longrightarrow> dict_get d' k \<noteq> None"
    using leaf by blast
  have "y = PDict d'" by (simp add: y d'_def)
  with 1 2 3 4 5 show ?thesis by blast
qed

theorem strings2utf8_dict_witness:
  "strings2utf8 (PDict [(PStr (ascii ''a''), PStr (ascii ''x'')), (PInt 3, PBool True)])
     = Inr (PDict [(PBytes ''a'', PBytes ''x''), (PInt 3, PBool True)])
   \<and> dict_get [(PBytes ''a'', PBytes ''x''), (PInt 3, PBool True)] (PBytes ''a'') = Some (PBytes ''x'')
   \<and> dict_get [(PBytes ''a'', PBytes ''x''), (PInt 3, PBool True)] (PStr (ascii ''a'')) = None
   \<and> dict_get [(PBytes ''a'', PBytes ''x''), (PInt 3, PBool True)] (PInt 3) = Some (PBool True)"
proof -
  have h: "strings2utf8 (PDict [(PStr (ascii ''a''), PStr (ascii ''x'')), (PInt 3, PBool True)])
     = Inr (PDict [(PBytes ''a'', PBytes ''x''), (PInt 3, PBool True)])"
    by (simp add: eval_simps)
  from strings2utf8_dict [OF h] obtain d' where
    "PDict [(PBytes ''a'', PBytes ''x''), (PInt 3, PBool True)] = PDict d'"
    and "\<forall>k v. (k, v) \<in> set [(PStr (ascii ''a''), PStr (ascii ''x'')), (PInt 3, PBool True)]
           \<and> hashable k \<and> no_text k \<longrightarrow> dict_get d' k \<noteq> None"
    by blast
  then have "dict_get [(PBytes ''a'', PBytes ''x''), (PInt 3, PBool True)] (PInt 3) \<noteq> None"
    by auto
  with h show ?thesis by (simp add: eval_simps)
qed

section \<open>Claims on \<^verbatim>\<open>tuple2dict\<close> and \<^verbatim>\<open>line2dict\<close>\<close>

lemma keys_setitem_strict:
  "\<forall>k'. py_eq k' k \<longrightarrow> k' = k \<Longrightarrow> fst ` set (dict_setitem acc k v) = insert k (fst ` set acc)"
proof -
  assume a: "\<forall>k'. py_eq k' k \<longrightarrow> k' = k"
  have "set (map fst (dict_setitem acc k v)) = insert k (set (map fst acc))"
  proof (cases "\<exists>k' \<in> set (map fst acc). py_eq k' k")
    case True
    then have "k \<in> set (map fst acc)" using a by blast
    then show ?thesis using True by (auto simp: keys_setitem)
  next
    case False
    then show ?thesis by (simp add: keys_setitem)
  qed
  then show ?thesis by simp
qed

lemma keys_of_items_strict:
  "\<forall>k \<in> fst ` set kvs. \<forall>k'. py_eq k' k \<longrightarrow> k' = k \<Longrightarrow>
     fst ` set (dict_of_items acc kvs) = fst ` set acc \<union> fst ` set kvs"
proof (induction acc kvs rule: dict_of_items.induct)
  case (1 acc)
  then show ?case by simp
next
  case (2 acc k v kvs)
  have k: "\<forall>k'. py_eq k' k \<longrightarrow> k' = k" using 2(2) by simp
  have rest: "\<forall>k \<in> fst ` set kvs. \<forall>k'. py_eq k' k \<longrightarrow> k' = k" using 2(2) by simp
  have "fst ` set (dict_of_items acc ((k, v) # kvs))
          = fst ` set (dict_setitem acc k v) \<union> fst ` set kvs"
    using 2(1) [OF rest] by simp
  also have "\<dots> = insert k (fst ` set acc) \<union> fst ` set kvs"
    by (simp only: keys_setitem_strict [OF k])
  finally show ?case by simp
qed

lemma field_items_keys: "map fst (field_items data) = map (PStr \<circ> fst) (nt_fields data)"
  by (simp add: field_items_def split_beta comp_def)

lemma py_distinct_PStr: "py_distinct (map PStr ns) = distinct ns"
  by (induction ns) auto

lemma asdict_distinct:
  assumes "distinct (map fst (nt_fields data))"
  shows "asdict data = field_items data" and "dict_of_items [] (asdict data) = field_items data"
proof -
  have "py_distinct (map fst (field_items data))"
    using assms py_distinct_PStr [of "map fst (nt_fields data)"] by (simp add: field_items_keys)
  then have *: "dict_of_items [] (field_items data) = field_items data"
    using of_items_distinct [of "field_items data" "[]"] by simp
  then show "asdict data = field_items data" by (simp add: asdict_def)
  with * show "dict_of_items [] (asdict data) = field_items data" by simp
qed

lemma setitem_present:
  "distinct (map fst d) \<Longrightarrow> PStr s \<in> fst ` set d \<Longrightarrow>
     dict_setitem d (PStr s) v = map (\<lambda>(k', v'). (k', if k' = PStr s then v else v')) d"
proof (induction d)
  case Nil
  then show ?case by simp
next
  case (Cons a d)
  obtain k0 v0 where a: "a = (k0, v0)" by (cases a)
  show ?case
  proof (cases "k0 = PStr s")
    case True
    then have "PStr s \<notin> fst ` set d" using Cons.prems(1) by (simp add: a)
    then have "map (\<lambda>(k', v'). (k', if k' = PStr s then v else v')) d = d"
      by (intro map_idI) force
    then show ?thesis using True by (simp add: a)
  next
    case False
    then show ?thesis using Cons by (auto simp: a)
  qed
qed

lemma field_items_key_set: "fst ` set (field_items data) = PStr ` fst ` set (nt_fields data)"
proof -
  have "set (map fst (field_items data)) = set (map (PStr \<circ> fst) (nt_fields data))"
    by (simp only: field_items_keys)
  then show ?thesis by (simp add: image_comp)
qed

lemma field_items_strict:
  "\<forall>k \<in> fst ` set (field_items data). \<forall>k'. py_eq k' k \<longrightarrow> k' = k"
  unfolding field_items_key_set by simp

lemma asdict_key_set: "fst ` set (asdict data) = PStr ` fst ` set (nt_fields data)"
  using keys_of_items_strict [OF field_items_strict, of "[]" data]
  by (simp add: asdict_def field_items_key_set)

lemma dict_of_asdict_key_set:
  "fst ` set (dict_of_items [] (asdict data)) = PStr ` fst ` set (nt_fields data)"
proof -
  have "\<forall>k \<in> fst ` set (asdict data). \<forall>k'. py_eq k' k \<longrightarrow> k' = k"
    unfolding asdict_key_set by simp
  from keys_of_items_strict [OF this, of "[]"] show ?thesis by (simp add: asdict_key_set)
qed

lemma dict_get_fields:
  "distinct (map fst fs) \<Longrightarrow> (n, v) \<in> set fs \<Longrightarrow>
     dict_get (map (\<lambda>(n, v). (PStr n, v)) fs) (PStr n) = Some v"
proof (induction fs)
  case Nil
  then show ?case by simp
next
  case (Cons a fs)
  obtain n0 v0 where a: "a = (n0, v0)" by (cases a)
  show ?case
  proof (cases "n0 = n")
    case True
    then have "n \<notin> fst ` set fs" using Cons.prems(1) by (simp add: a)
    then have "(n, v) \<notin> set fs" by force
    then have "v0 = v" using Cons.prems(2) True by (simp add: a)
    then show ?thesis using True by (simp add: a)
  next
    case False
    then have "(n, v) \<in> set fs" using Cons.prems(2) by (simp add: a)
    then show ?thesis using Cons.IH Cons.prems(1) False by (simp add: a)
  qed
qed

text \<open>
  C2: for a named tuple of class \<open>V\<close> with the fields \<open>F\<close>, \<open>tuple2dict\<close> returns a
  dictionary whose keys are exactly the names in \<open>F\<close> and \<^verbatim>\<open>'type'\<close>, and which holds
  the name \<open>V\<close> at the key \<^verbatim>\<open>'type'\<close>.  Every field of another name is in the
  dictionary with its value.
\<close>

theorem tuple2dict_keys:
  "\<exists>d. tuple2dict data = PDict d
     \<and> fst ` set d = PStr ` fst ` set (nt_fields data) \<union> {PStr (ascii ''type'')}
     \<and> dict_get d (PStr (ascii ''type'')) = Some (PStr (cls_name data))
     \<and> (distinct (map fst (nt_fields data)) \<longrightarrow>
          (\<forall>(n, v) \<in> set (nt_fields data). n \<noteq> ascii ''type'' \<longrightarrow> dict_get d (PStr n) = Some v))"
proof -
  define base where "base = dict_of_items [] (asdict data)"
  define d where "d = dict_setitem base (PStr (ascii ''type'')) (PStr (cls_name data))"
  have t: "tuple2dict data = PDict d" by (simp add: tuple2dict_def d_def base_def)
  have "fst ` set d = insert (PStr (ascii ''type'')) (fst ` set base)"
    unfolding d_def by (rule keys_setitem_strict) simp
  then have keys: "fst ` set d = PStr ` fst ` set (nt_fields data) \<union> {PStr (ascii ''type'')}"
    by (simp add: base_def dict_of_asdict_key_set)
  have ty: "dict_get d (PStr (ascii ''type'')) = Some (PStr (cls_name data))"
    by (simp add: d_def dict_get_setitem)
  have vals: "\<forall>(n, v) \<in> set (nt_fields data). n \<noteq> ascii ''type'' \<longrightarrow> dict_get d (PStr n) = Some v"
    if dist: "distinct (map fst (nt_fields data))"
  proof -
    have base: "base = field_items data" using asdict_distinct(2) [OF dist] by (simp add: base_def)
    have "dict_get d (PStr n) = Some v" if "(n, v) \<in> set (nt_fields data)" "n \<noteq> ascii ''type''" for n v
    proof -
      have "dict_get base (PStr n) = Some v"
        using dict_get_fields [OF dist that(1)] by (simp add: base field_items_def)
      then show ?thesis using that(2) by (simp add: d_def dict_get_setitem)
    qed
    then show ?thesis by blast
  qed
  show ?thesis
  proof (intro exI conjI impI)
    show "tuple2dict data = PDict d" by (rule t)
    show "fst ` set d = PStr ` fst ` set (nt_fields data) \<union> {PStr (ascii ''type'')}" by (rule keys)
    show "dict_get d (PStr (ascii ''type'')) = Some (PStr (cls_name data))" by (rule ty)
    show "\<forall>(n, v) \<in> set (nt_fields data). n \<noteq> ascii ''type'' \<longrightarrow> dict_get d (PStr n) = Some v"
      if "distinct (map fst (nt_fields data))" using vals [OF that] .
  qed
qed

theorem tuple2dict_keys_witness:
  "distinct (map fst (nt_fields \<lparr>cls_name = ascii ''Header'',
      nt_fields = [(ascii ''version'', PStr (ascii ''2.0''))]\<rparr>))
   \<and> tuple2dict \<lparr>cls_name = ascii ''Header'', nt_fields = [(ascii ''version'', PStr (ascii ''2.0''))]\<rparr>
     = PDict [(PStr (ascii ''version''), PStr (ascii ''2.0'')),
              (PStr (ascii ''type''), PStr (ascii ''Header''))]"
  using tuple2dict_keys
    [of "\<lparr>cls_name = ascii ''Header'', nt_fields = [(ascii ''version'', PStr (ascii ''2.0''))]\<rparr>"]
  by (simp add: tuple2dict_def asdict_def eval_simps)

text \<open>
  C9: in the dictionary that \<open>tuple2dict\<close> returns for a named tuple that has a field
  named \<^verbatim>\<open>'type'\<close>, the key \<^verbatim>\<open>'type'\<close> holds the name of the class and nothing else,
  so the value of the field is lost, and the dictionary has as many items as the tuple
  has fields; without such a field it has one more.
\<close>

theorem tuple2dict_overwrites_type:
  assumes dist: "distinct (map fst (nt_fields data))"
  shows "\<exists>d. tuple2dict data = PDict d
     \<and> dict_get d (PStr (ascii ''type'')) = Some (PStr (cls_name data))
     \<and> (\<forall>v. (PStr (ascii ''type''), v) \<in> set d \<longrightarrow> v = PStr (cls_name data))
     \<and> (ascii ''type'' \<in> fst ` set (nt_fields data) \<longrightarrow>
          length d = length (nt_fields data) \<and> map fst d = map (PStr \<circ> fst) (nt_fields data))
     \<and> (ascii ''type'' \<notin> fst ` set (nt_fields data) \<longrightarrow>
          length d = length (nt_fields data) + 1)"
proof -
  define base where "base = field_items data"
  define d where "d = dict_setitem base (PStr (ascii ''type'')) (PStr (cls_name data))"
  have t: "tuple2dict data = PDict d"
    using asdict_distinct(2) [OF dist] by (simp add: tuple2dict_def d_def base_def)
  have keys: "map fst base = map (PStr \<circ> fst) (nt_fields data)"
    by (simp add: base_def field_items_keys)
  have len: "length base = length (nt_fields data)" by (simp add: base_def field_items_def)
  have dbase: "distinct (map fst base)"
    using dist by (simp add: keys distinct_map inj_on_def comp_def)
  have ty: "dict_get d (PStr (ascii ''type'')) = Some (PStr (cls_name data))"
    by (simp add: d_def dict_get_setitem)
  have mem: "PStr (ascii ''type'') \<in> fst ` set base \<longleftrightarrow> ascii ''type'' \<in> fst ` set (nt_fields data)"
    by (auto simp: base_def field_items_key_set)
  have only: "v = PStr (cls_name data)" if "(PStr (ascii ''type''), v) \<in> set d" for v
  proof (cases "PStr (ascii ''type'') \<in> fst ` set base")
    case True
    from setitem_present [OF dbase True] that show ?thesis by (auto simp: d_def)
  next
    case False
    then have "\<forall>k' \<in> set (map fst base). \<not> py_eq k' (PStr (ascii ''type''))" by force
    from setitem_absent [OF this]
    have "d = base @ [(PStr (ascii ''type''), PStr (cls_name data))]" by (simp add: d_def)
    moreover have "(PStr (ascii ''type''), v) \<notin> set base" using False by force
    ultimately show ?thesis using that by simp
  qed
  have present: "length d = length (nt_fields data) \<and> map fst d = map (PStr \<circ> fst) (nt_fields data)"
    if "ascii ''type'' \<in> fst ` set (nt_fields data)"
  proof -
    from that mem have "PStr (ascii ''type'') \<in> fst ` set base" by simp
    from setitem_present [OF dbase this]
    have "d = map (\<lambda>(k', v'). (k', if k' = PStr (ascii ''type'') then PStr (cls_name data) else v')) base"
      by (simp add: d_def)
    then have "map fst d = map fst base" by (simp add: split_beta comp_def)
    then show ?thesis using keys len by (metis length_map)
  qed
  have absent: "length d = length (nt_fields data) + 1"
    if "ascii ''type'' \<notin> fst ` set (nt_fields data)"
  proof -
    from that mem have "PStr (ascii ''type'') \<notin> fst ` set base" by simp
    then have "\<forall>k' \<in> set (map fst base). \<not> py_eq k' (PStr (ascii ''type''))" by force
    from setitem_absent [OF this] show ?thesis by (simp add: d_def len)
  qed
  from t ty only present absent show ?thesis by blast
qed

theorem tuple2dict_overwrites_type_witness:
  "distinct (map fst (nt_fields \<lparr>cls_name = ascii ''Rule'',
      nt_fields = [(ascii ''type'', PInt 7), (ascii ''text'', PStr (ascii ''x''))]\<rparr>))
   \<and> tuple2dict \<lparr>cls_name = ascii ''Rule'',
        nt_fields = [(ascii ''type'', PInt 7), (ascii ''text'', PStr (ascii ''x''))]\<rparr>
     = PDict [(PStr (ascii ''type''), PStr (ascii ''Rule'')),
              (PStr (ascii ''text''), PStr (ascii ''x''))]"
  using tuple2dict_overwrites_type
    [of "\<lparr>cls_name = ascii ''Rule'',
          nt_fields = [(ascii ''type'', PInt 7), (ascii ''text'', PStr (ascii ''x''))]\<rparr>"]
  by (simp add: tuple2dict_def asdict_def eval_simps)

text \<open>
  C3: \<open>line2dict\<close> applies the parser, then \<open>tuple2dict\<close>, then \<open>strings2utf8\<close>:
  when the parser returns a named tuple, the result of \<open>line2dict\<close> is that of
  \<open>strings2utf8\<close> on the dictionary of the tuple; when the parser raises, \<open>line2dict\<close>
  raises the same exception.
\<close>

theorem line2dict_pipeline:
  "(parse_line text = Inr data \<longrightarrow>
      line2dict parse_line text = strings2utf8 (tuple2dict data))
   \<and> (parse_line text = Inl e \<longrightarrow> line2dict parse_line text = Inl e)"
  by (simp add: line2dict_def call_def)

theorem line2dict_pipeline_witness:
  "parse_empty_only (PStr []) = Inr empty_line
   \<and> line2dict parse_empty_only (PStr []) = strings2utf8 (tuple2dict empty_line)
   \<and> parse_empty_only (PBytes ''[x'') = Inl (Raised (ascii ''NotImplementedError''))
   \<and> line2dict parse_empty_only (PBytes ''[x'') = Inl (Raised (ascii ''NotImplementedError''))"
  using line2dict_pipeline [of parse_empty_only "PStr []" empty_line]
    line2dict_pipeline [of parse_empty_only "PBytes ''[x''" _ "Raised (ascii ''NotImplementedError'')"]
  by (simp add: parse_empty_only_def)

text \<open>
  C7, amended: when the parser returns for the empty line a record that has no fields,
  \<open>line2dict\<close> returns for the empty line the dictionary with the one key
  \<^verbatim>\<open>b'type'\<close>, which holds the UTF-8 bytes of the name of the class of that record.
  The class of the parser for an empty line is \<^verbatim>\<open>EmptyLine\<close>, and the dictionary is
  \<^verbatim>\<open>{b'type': b'EmptyLine'}\<close>.
\<close>

theorem line2dict_empty_line:
  "(parse_line (PStr []) = Inr data \<and> nt_fields data = [] \<and> encode_utf8 (cls_name data) = Inr b
      \<longrightarrow> line2dict parse_line (PStr []) = Inr (PDict [(PBytes ''type'', PBytes b)]))
   \<and> (classifies_empty parse_line
      \<longrightarrow> line2dict parse_line (PStr []) = Inr (PDict [(PBytes ''type'', PBytes ''EmptyLine'')]))"
proof (intro conjI impI)
  assume "parse_line (PStr []) = Inr data \<and> nt_fields data = [] \<and> encode_utf8 (cls_name data) = Inr b"
  then show "line2dict parse_line (PStr []) = Inr (PDict [(PBytes ''type'', PBytes b)])"
    by (simp add: line2dict_def call_def tuple2dict_def asdict_def eval_simps)
next
  assume "classifies_empty parse_line"
  then show "line2dict parse_line (PStr []) = Inr (PDict [(PBytes ''type'', PBytes ''EmptyLine'')])"
    by (simp add: classifies_empty_def line2dict_def call_def empty_line_def tuple2dict_def
        asdict_def eval_simps)
qed

theorem line2dict_empty_line_witness:
  "parse_empty_only (PStr []) = Inr empty_line
   \<and> nt_fields empty_line = []
   \<and> encode_utf8 (cls_name empty_line) = Inr ''EmptyLine''
   \<and> classifies_empty parse_empty_only
   \<and> line2dict parse_empty_only (PStr []) = Inr (PDict [(PBytes ''type'', PBytes ''EmptyLine'')])"
proof -
  have h: "parse_empty_only (PStr []) = Inr empty_line \<and> nt_fields empty_line = []
      \<and> encode_utf8 (cls_name empty_line) = Inr ''EmptyLine''"
    by (simp add: parse_empty_only_def empty_line_def eval_simps)
  have c: "classifies_empty parse_empty_only"
    by (simp add: classifies_empty_def parse_empty_only_def)
  from line2dict_empty_line [of parse_empty_only empty_line "''EmptyLine''"] h
  have "line2dict parse_empty_only (PStr []) = Inr (PDict [(PBytes ''type'', PBytes ''EmptyLine'')])"
    by blast
  with h c show ?thesis by blast
qed

text \<open>
  For the record of the class \<^verbatim>\<open>EmptyLine\<close> the result holds \<^verbatim>\<open>b'EmptyLine'\<close>: it
  is not the dictionary of the claim, whether the key of the claim is read as text or as
  bytes.
\<close>

theorem line2dict_empty_line_counterexample:
  "classifies_empty parse_empty_only
   \<and> line2dict parse_empty_only (PStr []) = Inr (PDict [(PBytes ''type'', PBytes ''EmptyLine'')])
   \<and> line2dict parse_empty_only (PStr []) \<noteq> Inr (PDict [(PStr (ascii ''type''), PBytes ''empty'')])
   \<and> line2dict parse_empty_only (PStr []) \<noteq> Inr (PDict [(PBytes ''type'', PBytes ''empty'')])"
  by (simp add: classifies_empty_def parse_empty_only_def line2dict_def call_def empty_line_def
      tuple2dict_def asdict_def eval_simps)

section \<open>The claim on the arguments: nothing is changed\<close>

lemma unchanged_below_refl [simp]: "unchanged_below m st st"
  by (simp add: unchanged_below_def)

lemma unchanged_below_trans:
  "unchanged_below m a b \<Longrightarrow> unchanged_below m b c \<Longrightarrow> unchanged_below m a c"
  by (simp add: unchanged_below_def)

lemma unchanged_below_mono:
  assumes "m' \<le> m" and "unchanged_below m a b"
  shows "unchanged_below m' a b"
proof -
  have "take m' b = take m' (take m b)" using assms(1) by (simp add: min_def)
  also have "\<dots> = take m' (take m a)" using assms(2) by (simp add: unchanged_below_def)
  also have "\<dots> = take m' a" using assms(1) by (simp add: min_def)
  finally show ?thesis using assms(2) by (simp add: unchanged_below_def)
qed

lemma unchanged_below_length: "unchanged_below m a b \<Longrightarrow> length a \<le> length b"
  by (simp add: unchanged_below_def)

lemma length_store_setitem [simp]: "length (store_setitem st r k v) = length st"
  by (simp add: store_setitem_def split: hobj.splits)

lemma length_store_append [simp]: "length (store_append st r v) = length st"
  by (simp add: store_append_def split: hobj.splits)

lemma unchanged_below_setitem: "unchanged_below r st (store_setitem st r k v)"
  by (simp add: unchanged_below_def store_setitem_def split: hobj.splits)

lemma unchanged_below_append: "unchanged_below r st (store_append st r v)"
  by (simp add: unchanged_below_def store_append_def split: hobj.splits)

lemma unchanged_below_alloc: "unchanged_below (length st) st (st @ [ob])"
  by (simp add: unchanged_below_def)

lemma unchanged_below_new:
  "unchanged_below (length st) (st @ [ob]) st' \<Longrightarrow> unchanged_below (length st) st st'"
  by (simp add: unchanged_below_def)

lemma unchanged_below_step:
  assumes "unchanged_below (length a) a b" and "r < length a"
  shows "unchanged_below r a b" and "r < length b"
proof -
  show "unchanged_below r a b" using assms by (intro unchanged_below_mono [OF _ assms(1)]) simp
  show "r < length b" using assms unchanged_below_length [OF assms(1)] by simp
qed

lemma strings2utf8_st_frame:
  shows "unchanged_below (length st) st (snd (strings2utf8_st n st v))"
    and "unchanged_below (length st) st (snd (strings2utf8_st_tuple n st vs))"
    and "r < length st \<Longrightarrow> unchanged_below r st (snd (strings2utf8_st_list n st r vs))"
    and "r < length st \<Longrightarrow> unchanged_below r st (snd (strings2utf8_st_items n st r d))"
proof (induction n st v and n st vs and n st r vs and n st r d
    rule: strings2utf8_st_strings2utf8_st_tuple_strings2utf8_st_list_strings2utf8_st_items.induct)
  case (2 n st a)
  show ?case
  proof (cases "a < length st")
    case True
    show ?thesis
    proof (cases "st ! a")
      case (ODict d)
      from 2(1) [OF True ODict] have "unchanged_below (length st) (st @ [ODict []])
          (snd (strings2utf8_st_items n (st @ [ODict []]) (length st) d))" by simp
      then show ?thesis using True ODict by (simp add: unchanged_below_new)
    next
      case (OList vs)
      from 2(2) [OF True OList] have "unchanged_below (length st) (st @ [OList []])
          (snd (strings2utf8_st_list n (st @ [OList []]) (length st) vs))" by simp
      then show ?thesis using True OList by (simp add: unchanged_below_new)
    qed
  next
    case False
    then show ?thesis by simp
  qed
next
  case (3 n st vs)
  then show ?case by (auto split: prod.splits sum.splits)
next
  case (4 n st s)
  then show ?case by (simp split: sum.splits)
next
  case (7 n st v vs)
  obtain x st1 where r1: "strings2utf8_st n st v = (x, st1)" by (cases "strings2utf8_st n st v")
  have u1: "unchanged_below (length st) st st1" using 7(1) r1 by simp
  show ?case
  proof (cases x)
    case (Inl e)
    then show ?thesis using r1 u1 by simp
  next
    case (Inr v')
    have "unchanged_below (length st1) st1 (snd (strings2utf8_st_tuple n st1 vs))"
      using 7(2) [OF r1 [symmetric] Inr] .
    then have "unchanged_below (length st) st1 (snd (strings2utf8_st_tuple n st1 vs))"
      using unchanged_below_length [OF u1] by (rule unchanged_below_mono [rotated])
    with u1 have "unchanged_below (length st) st (snd (strings2utf8_st_tuple n st1 vs))"
      by (rule unchanged_below_trans)
    then show ?thesis using r1 Inr by (auto split: prod.splits sum.splits)
  qed
next
  case (9 n st r v vs)
  obtain x st1 where r1: "strings2utf8_st n st v = (x, st1)" by (cases "strings2utf8_st n st v")
  have "unchanged_below (length st) st st1" using 9(1) r1 by simp
  then have u1: "unchanged_below r st st1" and l1: "r < length st1"
    using 9(3) by (rule unchanged_below_step)+
  show ?case
  proof (cases x)
    case (Inl e)
    then show ?thesis using r1 u1 by simp
  next
    case (Inr v')
    have "unchanged_below r (store_append st1 r v')
        (snd (strings2utf8_st_list n (store_append st1 r v') r vs))"
      using 9(2) [OF r1 [symmetric] Inr] l1 by simp
    with unchanged_below_append have "unchanged_below r st1
        (snd (strings2utf8_st_list n (store_append st1 r v') r vs))"
      by (rule unchanged_below_trans)
    with u1 have "unchanged_below r st
        (snd (strings2utf8_st_list n (store_append st1 r v') r vs))"
      by (rule unchanged_below_trans)
    then show ?thesis using r1 Inr by simp
  qed
next
  case (11 n st r k v d)
  obtain x st1 where r1: "strings2utf8_st n st k = (x, st1)" by (cases "strings2utf8_st n st k")
  have "unchanged_below (length st) st st1" using 11(1) r1 by simp
  then have u1: "unchanged_below r st st1" and l1: "r < length st1"
    using 11(4) by (rule unchanged_below_step)+
  show ?case
  proof (cases x)
    case (Inl e)
    then show ?thesis using r1 u1 by simp
  next
    case (Inr k')
    obtain y st2 where r2: "strings2utf8_st n st1 v = (y, st2)"
      by (cases "strings2utf8_st n st1 v")
    have "unchanged_below (length st1) st1 st2" using 11(2) [OF r1 [symmetric] Inr] r2 by simp
    then have u12: "unchanged_below r st1 st2" and l2: "r < length st2"
      using l1 by (rule unchanged_below_step)+
    from u1 u12 have u2: "unchanged_below r st st2" by (rule unchanged_below_trans)
    show ?thesis
    proof (cases y)
      case (Inl e)
      then show ?thesis using r1 \<open>x = Inr k'\<close> r2 u2 by simp
    next
      case (Inr v')
      have "unchanged_below r (store_setitem st2 r k' v')
          (snd (strings2utf8_st_items n (store_setitem st2 r k' v') r d))"
        using 11(3) [OF r1 [symmetric] \<open>x = Inr k'\<close> r2 [symmetric] Inr] l2 by simp
      with unchanged_below_setitem have "unchanged_below r st2
          (snd (strings2utf8_st_items n (store_setitem st2 r k' v') r d))"
        by (rule unchanged_below_trans)
      with u2 have "unchanged_below r st
          (snd (strings2utf8_st_items n (store_setitem st2 r k' v') r d))"
        by (rule unchanged_below_trans)
      then show ?thesis using r1 \<open>x = Inr k'\<close> r2 Inr by simp
    qed
  qed
qed simp_all

lemma strings2utf8_st_items_result:
  "strings2utf8_st_items n st r d = (Inr v', st') \<Longrightarrow> v' = HRef r"
  by (induction d arbitrary: st) (auto split: prod.splits sum.splits)

lemma strings2utf8_st_list_result:
  "strings2utf8_st_list n st r vs = (Inr v', st') \<Longrightarrow> v' = HRef r"
  by (induction vs arbitrary: st) (auto split: prod.splits sum.splits)

lemma strings2utf8_st_new:
  assumes "a < length st" and "strings2utf8_st n st (HRef a) = (Inr v', st')"
  shows "v' = HRef (length st)"
proof (cases n)
  case 0
  then show ?thesis using assms by simp
next
  case (Suc m)
  show ?thesis
  proof (cases "st ! a")
    case (ODict d)
    then show ?thesis using assms Suc strings2utf8_st_items_result by simp
  next
    case (OList vs)
    then show ?thesis using assms Suc strings2utf8_st_list_result by simp
  qed
qed

lemma tuple2dict_st_frame:
  "unchanged_below (length st) st (snd (tuple2dict_st st data))"
  "fst (tuple2dict_st st data) = HRef (Suc (length st))"
  by (simp_all add: tuple2dict_st_def store_alloc_def store_items_def store_setitem_def
      unchanged_below_def Let_def)

text \<open>
  C8: neither function changes its argument.  Every object that is in the store before a
  call of \<open>strings2utf8\<close> or of \<open>tuple2dict\<close>, so the argument and every container in
  it, is the same after the call, whether the call returns or raises; the dictionary or
  list that is returned for a dictionary or a list is a new object.
\<close>

theorem no_mutation:
  "unchanged_below (length st) st (snd (strings2utf8_st n st v))
   \<and> (a < length st \<and> strings2utf8_st n st (HRef a) = (Inr v', st') \<longrightarrow> v' = HRef (length st))
   \<and> unchanged_below (length st) st (snd (tuple2dict_st st data))
   \<and> fst (tuple2dict_st st data) = HRef (Suc (length st))"
  using strings2utf8_st_frame(1) [of st n v] strings2utf8_st_new [of a st n v' st']
    tuple2dict_st_frame [of st data]
  by blast

theorem no_mutation_witness:
  "strings2utf8_st (Suc (Suc (Suc 0)))
       [OList [HStr [0xFC], HInt 1], ODict [(HStr (ascii ''a''), HRef 0)]] (HRef 1)
     = (Inr (HRef 2),
        [OList [HStr [0xFC], HInt 1], ODict [(HStr (ascii ''a''), HRef 0)],
         ODict [(HBytes ''a'', HRef 3)], OList [HBytes [CHR 0xC3, CHR 0xBC], HInt 1]])
   \<and> unchanged_below 2
        [OList [HStr [0xFC], HInt 1], ODict [(HStr (ascii ''a''), HRef 0)]]
        [OList [HStr [0xFC], HInt 1], ODict [(HStr (ascii ''a''), HRef 0)],
         ODict [(HBytes ''a'', HRef 3)], OList [HBytes [CHR 0xC3, CHR 0xBC], HInt 1]]"
proof -
  have h: "strings2utf8_st (Suc (Suc (Suc 0)))
       [OList [HStr [0xFC], HInt 1], ODict [(HStr (ascii ''a''), HRef 0)]] (HRef 1)
     = (Inr (HRef 2),
        [OList [HStr [0xFC], HInt 1], ODict [(HStr (ascii ''a''), HRef 0)],
         ODict [(HBytes ''a'', HRef 3)], OList [HBytes [CHR 0xC3, CHR 0xBC], HInt 1]])"
    by (simp add: store_setitem_def store_append_def h_eq_def eval_simps)
  have u: "unchanged_below
      (length [OList [HStr [0xFC], HInt 1], ODict [(HStr (ascii ''a''), HRef 0)]])
      [OList [HStr [0xFC], HInt 1], ODict [(HStr (ascii ''a''), HRef 0)]]
      (snd (strings2utf8_st (Suc (Suc (Suc 0)))
         [OList [HStr [0xFC], HInt 1], ODict [(HStr (ascii ''a''), HRef 0)]] (HRef 1)))"
    by (rule no_mutation [THEN conjunct1])
  have "unchanged_below 2
        [OList [HStr [0xFC], HInt 1], ODict [(HStr (ascii ''a''), HRef 0)]]
        [OList [HStr [0xFC], HInt 1], ODict [(HStr (ascii ''a''), HRef 0)],
         ODict [(HBytes ''a'', HRef 3)], OList [HBytes [CHR 0xC3, CHR 0xBC], HInt 1]]"
    using u [unfolded h] by (simp add: numeral_2_eq_2)
  with h show ?thesis by (rule conjI)
qed

section \<open>Denoted values\<close>

lemma unchanged_below_nth:
  assumes "unchanged_below (length st) st st'" and "a < length st"
  shows "a < length st'" and "st' ! a = st ! a"
proof -
  show "a < length st'" using assms by (simp add: unchanged_below_def)
  have "take (length st) st' ! a = st ! a" using assms by (simp add: unchanged_below_def)
  then show "st' ! a = st ! a" using assms(2) by simp
qed

lemma denoted_stable:
  shows "denoted n st v = Some x \<Longrightarrow> unchanged_below (length st) st st' \<Longrightarrow> denoted n st' v = Some x"
    and "denoted_seq n st vs = Some xs \<Longrightarrow> unchanged_below (length st) st st'
         \<Longrightarrow> denoted_seq n st' vs = Some xs"
    and "denoted_items n st d = Some pd \<Longrightarrow> unchanged_below (length st) st st'
         \<Longrightarrow> denoted_items n st' d = Some pd"
proof (induction n st v and n st vs and n st d arbitrary: x and xs and pd
    rule: denoted_denoted_seq_denoted_items.induct)
  case (2 n st a)
  from 2(3) have a: "a < length st" by (simp split: if_splits)
  note nth = unchanged_below_nth [OF 2(4) a]
  show ?case
  proof (cases "st ! a")
    case (ODict d)
    then show ?thesis using 2(1) [OF a ODict] 2(3,4) a nth by (auto split: option.splits)
  next
    case (OList vs)
    then show ?thesis using 2(2) [OF a OList] 2(3,4) a nth by (auto split: option.splits)
  qed
qed (auto split: option.splits if_splits)

lemma plain_key_norm: "key_norm (plain_value k) = plain_value (hkey_norm k)"
  by (induction k rule: hkey_norm.induct) auto

lemma href_free_key_norm: "href_free (hkey_norm k) = href_free k"
  by (induction k rule: hkey_norm.induct) (auto simp: list_all_iff)

lemma plain_value_inj:
  "href_free a \<Longrightarrow> href_free b \<Longrightarrow> plain_value a = plain_value b \<Longrightarrow> a = b"
proof (induction a arbitrary: b rule: plain_value.induct)
  case (2 vs)
  then obtain ws where b: "b = HTuple ws" by (cases b) auto
  have "vs = ws"
    using 2 unfolding b
    by (auto simp: list_all_iff list_eq_iff_nth_eq dest!: map_eq_imp_length_eq
        intro!: nth_equalityI)
  then show ?case by (simp add: b)
next
  case (1 a)
  then show ?case by simp
next
  case (3 s)
  then show ?case by (cases b) auto
next
  case (4 c)
  then show ?case by (cases b) auto
next
  case (5 i)
  then show ?case by (cases b) auto
next
  case (6 c)
  then show ?case by (cases b) auto
next
  case 7
  then show ?case by (cases b) auto
next
  case (8 i)
  then show ?case by (cases b) auto
qed

lemma h_eq_py_eq:
  assumes "href_free a" and "href_free b"
  shows "h_eq a b = py_eq (plain_value a) (plain_value b)"
proof -
  have "py_eq (plain_value a) (plain_value b)
      \<longleftrightarrow> plain_value (hkey_norm a) = plain_value (hkey_norm b)"
    by (simp add: py_eq_def plain_key_norm)
  also have "\<dots> \<longleftrightarrow> hkey_norm a = hkey_norm b"
    using plain_value_inj [of "hkey_norm a" "hkey_norm b"] assms
    by (auto simp: href_free_key_norm)
  finally show ?thesis by (simp add: h_eq_def)
qed

lemma denoted_plain:
  shows "href_free v \<Longrightarrow> denoted n st v = Some y \<Longrightarrow> y = plain_value v"
    and "list_all href_free vs \<Longrightarrow> denoted_seq n st vs = Some ys \<Longrightarrow> ys = map plain_value vs"
    and "denoted_items n st d = Some pd \<Longrightarrow> length pd = length d"
proof (induction n st v and n st vs and n st d arbitrary: y and ys and pd
    rule: denoted_denoted_seq_denoted_items.induct)
qed (auto split: option.splits if_splits)

lemma denoted_href_free:
  fixes d :: "(hval \<times> hval) list"
  shows "href_free v \<Longrightarrow> denoted n st' v = denoted n st v"
    and "list_all href_free vs \<Longrightarrow> denoted_seq n st' vs = denoted_seq n st vs"
    and "True"
proof (induction n st v and n st vs and n st d
    rule: denoted_denoted_seq_denoted_items.induct)
qed (auto split: option.splits if_splits)

lemma strings2utf8_st_href_free:
  fixes r :: nat and d :: "(hval \<times> hval) list"
  shows "href_free v \<Longrightarrow>
           snd (strings2utf8_st n st v) = st
           \<and> (\<forall>v'. fst (strings2utf8_st n st v) = Inr v' \<longrightarrow> href_free v')"
    and "list_all href_free vs \<Longrightarrow>
           snd (strings2utf8_st_tuple n st vs) = st
           \<and> (\<forall>vs'. fst (strings2utf8_st_tuple n st vs) = Inr vs' \<longrightarrow> list_all href_free vs')"
    and "True"
    and "True"
proof (induction n st v and n st vs and n st r vs and n st r d
    rule: strings2utf8_st_strings2utf8_st_tuple_strings2utf8_st_list_strings2utf8_st_items.induct)
qed (auto split: prod.splits sum.splits)

lemma denoted_setitem:
  assumes "denoted_items n s acc = Some pacc" and "href_free k"
    and "denoted n s k = Some pk" and "denoted n s v = Some pv"
  shows "denoted_items n s (h_setitem acc k v) = Some (dict_setitem pacc pk pv)"
  using assms(1)
proof (induction acc arbitrary: pacc)
  case Nil
  then show ?case using assms(2-4) by simp
next
  case (Cons a acc)
  obtain k0 v0 where a: "a = (k0, v0)" by (cases a)
  from Cons.prems obtain pk0 pv0 pacc' where
    f: "href_free k0" and k0: "denoted n s k0 = Some pk0" and v0: "denoted n s v0 = Some pv0"
    and acc: "denoted_items n s acc = Some pacc'" and pacc: "pacc = (pk0, pv0) # pacc'"
    by (auto simp: a split: option.splits if_splits)
  have "h_eq k0 k = py_eq pk0 pk"
    using h_eq_py_eq [OF f assms(2)] denoted_plain(1) [OF f k0] denoted_plain(1) [OF assms(2,3)]
    by simp
  then show ?case
    using Cons.IH [OF acc] f k0 v0 acc assms(2-4) by (simp add: a pacc)
qed

lemma denoted_seq_append:
  "denoted_seq n s acc = Some pacc \<Longrightarrow> denoted n s v = Some pv
   \<Longrightarrow> denoted_seq n s (acc @ [v]) = Some (pacc @ [pv])"
  by (induction acc arbitrary: pacc) (auto split: option.splits)

lemma agrees_from_mono: "agrees_from m st st' \<Longrightarrow> m \<le> m' \<Longrightarrow> agrees_from m' st st'"
  by (simp add: agrees_from_def)

lemma agrees_from_grown:
  assumes "agrees_from m st1 st'" and "unchanged_below (length st) st st1"
  shows "agrees_from m st st'"
proof -
  have "st' ! a = st ! a" if "m \<le> a" "a < length st" for a
  proof -
    from unchanged_below_nth [OF assms(2) that(2)] have "a < length st1" "st1 ! a = st ! a" .
    then show ?thesis using assms(1) that(1) by (simp add: agrees_from_def)
  qed
  then show ?thesis
    using assms(1) unchanged_below_length [OF assms(2)] by (simp add: agrees_from_def)
qed

lemma agrees_from_update:
  "agrees_from (Suc r) (st[r := ob]) st' \<Longrightarrow> agrees_from (Suc r) st st'"
  by (simp add: agrees_from_def)

lemma agrees_from_nth:
  "agrees_from m st st' \<Longrightarrow> m \<le> a \<Longrightarrow> a < length st \<Longrightarrow> a < length st' \<and> st' ! a = st ! a"
  by (simp add: agrees_from_def)

lemma store_setitem_dict:
  "r < length st \<Longrightarrow> st ! r = ODict acc \<Longrightarrow>
     store_setitem st r k v = st[r := ODict (h_setitem acc k v)]"
  by (simp add: store_setitem_def)

lemma store_append_list:
  "r < length st \<Longrightarrow> st ! r = OList acc \<Longrightarrow> store_append st r v = st[r := OList (acc @ [v])]"
  by (simp add: store_append_def)

lemma unchanged_below_grown:
  assumes "unchanged_below (length st0) st0 st" and "unchanged_below (length st) st st1"
  shows "unchanged_below (length st0) st0 st1"
proof -
  have "unchanged_below (length st0) st st1"
    using unchanged_below_length [OF assms(1)] assms(2) by (rule unchanged_below_mono)
  with assms(1) show ?thesis by (rule unchanged_below_trans)
qed

lemma unchanged_below_update:
  assumes "unchanged_below (length st0) st0 st" and "length st0 \<le> r"
  shows "unchanged_below (length st0) st0 (st[r := ob])"
  using assms by (simp add: unchanged_below_def)

section \<open>The store model computes the values of the first model\<close>

lemma strings2utf8_st_denoted:
  shows "denoted n st v = Some x \<Longrightarrow>
      (\<forall>e. fst (strings2utf8_st n st v) = Inl e \<longrightarrow> strings2utf8 x = Inl e) \<and>
      (\<forall>v'. fst (strings2utf8_st n st v) = Inr v' \<longrightarrow>
         (\<exists>y. strings2utf8 x = Inr y \<and>
            (\<forall>s. agrees_from (length st) (snd (strings2utf8_st n st v)) s
                \<longrightarrow> denoted n s v' = Some y)))"
    and "denoted_seq n st vs = Some xs \<Longrightarrow>
      (\<forall>e. fst (strings2utf8_st_tuple n st vs) = Inl e \<longrightarrow> strings2utf8_seq xs = Inl e) \<and>
      (\<forall>vs'. fst (strings2utf8_st_tuple n st vs) = Inr vs' \<longrightarrow>
         (\<exists>ys. strings2utf8_seq xs = Inr ys \<and>
            (\<forall>s. agrees_from (length st) (snd (strings2utf8_st_tuple n st vs)) s
                \<longrightarrow> denoted_seq n s vs' = Some ys)))"
    and "r < length st \<Longrightarrow> st ! r = OList acc \<Longrightarrow> length st0 \<le> r
         \<Longrightarrow> unchanged_below (length st0) st0 st \<Longrightarrow> denoted_seq n st0 vs = Some xs
         \<Longrightarrow> (\<forall>s. agrees_from (Suc r) st s \<longrightarrow> denoted_seq n s acc = Some pacc) \<Longrightarrow>
      (\<forall>e. fst (strings2utf8_st_list n st r vs) = Inl e \<longrightarrow> strings2utf8_seq xs = Inl e) \<and>
      (\<forall>v'. fst (strings2utf8_st_list n st r vs) = Inr v' \<longrightarrow> v' = HRef r \<and>
         (\<exists>ys acc'. strings2utf8_seq xs = Inr ys
            \<and> r < length (snd (strings2utf8_st_list n st r vs))
            \<and> snd (strings2utf8_st_list n st r vs) ! r = OList acc'
            \<and> (\<forall>s. agrees_from (Suc r) (snd (strings2utf8_st_list n st r vs)) s
                  \<longrightarrow> denoted_seq n s acc' = Some (pacc @ ys))))"
    and "r < length st \<Longrightarrow> st ! r = ODict dacc \<Longrightarrow> length st0 \<le> r
         \<Longrightarrow> unchanged_below (length st0) st0 st \<Longrightarrow> denoted_items n st0 d = Some xd
         \<Longrightarrow> (\<forall>s. agrees_from (Suc r) st s \<longrightarrow> denoted_items n s dacc = Some pdacc) \<Longrightarrow>
      (\<forall>e. fst (strings2utf8_st_items n st r d) = Inl e \<longrightarrow> strings2utf8_items pdacc xd = Inl e) \<and>
      (\<forall>v'. fst (strings2utf8_st_items n st r d) = Inr v' \<longrightarrow> v' = HRef r \<and>
         (\<exists>d' acc'. strings2utf8_items pdacc xd = Inr d'
            \<and> r < length (snd (strings2utf8_st_items n st r d))
            \<and> snd (strings2utf8_st_items n st r d) ! r = ODict acc'
            \<and> (\<forall>s. agrees_from (Suc r) (snd (strings2utf8_st_items n st r d)) s
                  \<longrightarrow> denoted_items n s acc' = Some d')))"
proof (induction n st v and n st vs and n st r vs and n st r d
    arbitrary: x and xs and acc st0 xs pacc and dacc st0 xd pdacc
    rule: strings2utf8_st_strings2utf8_st_tuple_strings2utf8_st_list_strings2utf8_st_items.induct)
  case (1 st v)
  then show ?case by simp
next
  case (2 n st a)
  from "2.prems" have a: "a < length st" by (simp split: if_splits)
  let ?r = "length st"
  show ?case
  proof (cases "st ! a")
    case (ODict d)
    from "2.prems" a ODict obtain pd where pd: "denoted_items n st d = Some pd" and x: "x = PDict pd"
      by (auto split: option.splits)
    let ?res = "strings2utf8_st_items n (st @ [ODict []]) ?r d"
    have eq: "strings2utf8_st (Suc n) st (HRef a) = ?res" using a ODict by simp
    have ih: "(\<forall>e. fst ?res = Inl e \<longrightarrow> strings2utf8_items [] pd = Inl e) \<and>
      (\<forall>v'. fst ?res = Inr v' \<longrightarrow> v' = HRef ?r \<and>
         (\<exists>d' acc'. strings2utf8_items [] pd = Inr d' \<and> ?r < length (snd ?res)
            \<and> snd ?res ! ?r = ODict acc'
            \<and> (\<forall>s. agrees_from (Suc ?r) (snd ?res) s \<longrightarrow> denoted_items n s acc' = Some d')))"
      by (rule "2.IH"(1) [OF a ODict, of "[]" st pd "[]"])
        (simp_all add: pd unchanged_below_alloc)
    show ?thesis
    proof (intro conjI allI impI)
      fix e assume "fst (strings2utf8_st (Suc n) st (HRef a)) = Inl e"
      then have "fst ?res = Inl e" by (simp only: eq)
      with ih have "strings2utf8_items [] pd = Inl e" by blast
      then show "strings2utf8 x = Inl e" by (simp add: x)
    next
      fix v' assume "fst (strings2utf8_st (Suc n) st (HRef a)) = Inr v'"
      then have "fst ?res = Inr v'" by (simp only: eq)
      with ih obtain d' acc' where r: "v' = HRef ?r" and d': "strings2utf8_items [] pd = Inr d'"
        and len: "?r < length (snd ?res)" and acc': "snd ?res ! ?r = ODict acc'"
        and den: "\<forall>s. agrees_from (Suc ?r) (snd ?res) s \<longrightarrow> denoted_items n s acc' = Some d'"
        by blast
      have "denoted (Suc n) s v' = Some (PDict d')" if "agrees_from ?r (snd ?res) s" for s
      proof -
        from agrees_from_nth [OF that _ len] acc' have "?r < length s" "s ! ?r = ODict acc'"
          by simp_all
        moreover have "denoted_items n s acc' = Some d'"
          using den agrees_from_mono [OF that, of "Suc ?r"] by simp
        ultimately show ?thesis by (simp add: r)
      qed
      moreover have "strings2utf8 x = Inr (PDict d')" using d' by (simp add: x)
      ultimately show "\<exists>y. strings2utf8 x = Inr y \<and>
            (\<forall>s. agrees_from (length st) (snd (strings2utf8_st (Suc n) st (HRef a))) s
                \<longrightarrow> denoted (Suc n) s v' = Some y)"
        unfolding eq by blast
    qed
  next
    case (OList vs)
    from "2.prems" a OList obtain xs where xs: "denoted_seq n st vs = Some xs" and x: "x = PList xs"
      by (auto split: option.splits)
    let ?res = "strings2utf8_st_list n (st @ [OList []]) ?r vs"
    have eq: "strings2utf8_st (Suc n) st (HRef a) = ?res" using a OList by simp
    have ih: "(\<forall>e. fst ?res = Inl e \<longrightarrow> strings2utf8_seq xs = Inl e) \<and>
      (\<forall>v'. fst ?res = Inr v' \<longrightarrow> v' = HRef ?r \<and>
         (\<exists>ys acc'. strings2utf8_seq xs = Inr ys \<and> ?r < length (snd ?res)
            \<and> snd ?res ! ?r = OList acc'
            \<and> (\<forall>s. agrees_from (Suc ?r) (snd ?res) s \<longrightarrow> denoted_seq n s acc' = Some ([] @ ys))))"
      by (rule "2.IH"(2) [OF a OList, of "[]" st xs "[]"])
        (simp_all add: xs unchanged_below_alloc)
    show ?thesis
    proof (intro conjI allI impI)
      fix e assume "fst (strings2utf8_st (Suc n) st (HRef a)) = Inl e"
      then have "fst ?res = Inl e" by (simp only: eq)
      with ih have "strings2utf8_seq xs = Inl e" by blast
      then show "strings2utf8 x = Inl e" by (simp add: x)
    next
      fix v' assume "fst (strings2utf8_st (Suc n) st (HRef a)) = Inr v'"
      then have "fst ?res = Inr v'" by (simp only: eq)
      with ih obtain ys acc' where r: "v' = HRef ?r" and ys: "strings2utf8_seq xs = Inr ys"
        and len: "?r < length (snd ?res)" and acc': "snd ?res ! ?r = OList acc'"
        and den: "\<forall>s. agrees_from (Suc ?r) (snd ?res) s \<longrightarrow> denoted_seq n s acc' = Some ([] @ ys)"
        by blast
      have "denoted (Suc n) s v' = Some (PList ys)" if "agrees_from ?r (snd ?res) s" for s
      proof -
        from agrees_from_nth [OF that _ len] acc' have "?r < length s" "s ! ?r = OList acc'"
          by simp_all
        moreover have "denoted_seq n s acc' = Some ys"
          using den agrees_from_mono [OF that, of "Suc ?r"] by simp
        ultimately show ?thesis by (simp add: r)
      qed
      moreover have "strings2utf8 x = Inr (PList ys)" using ys by (simp add: x)
      ultimately show "\<exists>y. strings2utf8 x = Inr y \<and>
            (\<forall>s. agrees_from (length st) (snd (strings2utf8_st (Suc n) st (HRef a))) s
                \<longrightarrow> denoted (Suc n) s v' = Some y)"
        unfolding eq by blast
    qed
  qed
next
  case (3 n st vs)
  from "3.prems" obtain xs where xs: "denoted_seq n st vs = Some xs" and x: "x = PTuple xs"
    by (auto split: option.splits)
  from "3.IH" [OF xs] show ?case
    by (auto simp: x split: prod.splits sum.splits)
next
  case (4 n st s)
  then show ?case by (auto split: sum.splits)
next
  case (7 n st v vs)
  from "7.prems" obtain x xs' where x: "denoted n st v = Some x"
    and xs': "denoted_seq n st vs = Some xs'" and xs: "xs = x # xs'"
    by (auto split: option.splits)
  obtain r1 st1 where r1: "strings2utf8_st n st v = (r1, st1)" by (cases "strings2utf8_st n st v")
  have g1: "unchanged_below (length st) st st1"
    using strings2utf8_st_frame(1) [of st n v] by (simp add: r1)
  from "7.IH"(1) [OF x] have p: "(\<forall>e. r1 = Inl e \<longrightarrow> strings2utf8 x = Inl e) \<and>
      (\<forall>v'. r1 = Inr v' \<longrightarrow> (\<exists>y. strings2utf8 x = Inr y \<and>
            (\<forall>s. agrees_from (length st) st1 s \<longrightarrow> denoted n s v' = Some y)))"
    by (simp add: r1)
  show ?case
  proof (cases r1)
    case (Inl e)
    then have res: "strings2utf8_st_tuple n st (v # vs) = (Inl e, st1)" by (simp add: r1)
    have "strings2utf8_seq xs = Inl e" using p Inl by (simp add: xs)
    then show ?thesis unfolding res by simp
  next
    case (Inr v')
    with p obtain y where y: "strings2utf8 x = Inr y"
      and okv: "\<forall>s. agrees_from (length st) st1 s \<longrightarrow> denoted n s v' = Some y" by blast
    have xs1: "denoted_seq n st1 vs = Some xs'" by (rule denoted_stable(2) [OF xs' g1])
    obtain r2 st2 where r2: "strings2utf8_st_tuple n st1 vs = (r2, st2)"
      by (cases "strings2utf8_st_tuple n st1 vs")
    have g2: "unchanged_below (length st1) st1 st2"
      using strings2utf8_st_frame(2) [of st1 n vs] by (simp add: r2)
    from "7.IH"(2) [OF r1 [symmetric] Inr xs1]
    have q: "(\<forall>e. r2 = Inl e \<longrightarrow> strings2utf8_seq xs' = Inl e) \<and>
      (\<forall>vs'. r2 = Inr vs' \<longrightarrow> (\<exists>ys. strings2utf8_seq xs' = Inr ys \<and>
            (\<forall>s. agrees_from (length st1) st2 s \<longrightarrow> denoted_seq n s vs' = Some ys)))"
      by (simp add: r2)
    show ?thesis
    proof (cases r2)
      case (Inl e)
      then have res: "strings2utf8_st_tuple n st (v # vs) = (Inl e, st2)"
        by (simp add: r1 \<open>r1 = Inr v'\<close> r2)
      have "strings2utf8_seq xs = Inl e" using q Inl y by (simp add: xs)
      then show ?thesis unfolding res by simp
    next
      case (Inr vs')
      with q obtain ys where ys: "strings2utf8_seq xs' = Inr ys"
        and okvs: "\<forall>s. agrees_from (length st1) st2 s \<longrightarrow> denoted_seq n s vs' = Some ys"
        by blast
      have res: "strings2utf8_st_tuple n st (v # vs) = (Inr (v' # vs'), st2)"
        by (simp add: r1 \<open>r1 = Inr v'\<close> r2 Inr)
      have "denoted_seq n s (v' # vs') = Some (y # ys)" if "agrees_from (length st) st2 s" for s
      proof -
        have "denoted n s v' = Some y"
          using okv agrees_from_grown [OF that g2] by simp
        moreover have "denoted_seq n s vs' = Some ys"
          using okvs agrees_from_mono [OF that unchanged_below_length [OF g1]] by simp
        ultimately show ?thesis by simp
      qed
      moreover have "strings2utf8_seq xs = Inr (y # ys)" using y ys by (simp add: xs)
      ultimately show ?thesis unfolding res by auto
    qed
  qed
next
  case (9 n st r v vs)
  from "9.prems"(5) obtain x xs' where x0: "denoted n st0 v = Some x"
    and xs': "denoted_seq n st0 vs = Some xs'" and xs: "xs = x # xs'"
    by (auto split: option.splits)
  have x: "denoted n st v = Some x" by (rule denoted_stable(1) [OF x0 "9.prems"(4)])
  obtain r1 st1 where r1: "strings2utf8_st n st v = (r1, st1)" by (cases "strings2utf8_st n st v")
  have g1: "unchanged_below (length st) st st1"
    using strings2utf8_st_frame(1) [of st n v] by (simp add: r1)
  from "9.IH"(1) [OF x] have p: "(\<forall>e. r1 = Inl e \<longrightarrow> strings2utf8 x = Inl e) \<and>
      (\<forall>v'. r1 = Inr v' \<longrightarrow> (\<exists>y. strings2utf8 x = Inr y \<and>
            (\<forall>s. agrees_from (length st) st1 s \<longrightarrow> denoted n s v' = Some y)))"
    by (simp add: r1)
  show ?case
  proof (cases r1)
    case (Inl e)
    then have res: "strings2utf8_st_list n st r (v # vs) = (Inl e, st1)" by (simp add: r1)
    have "strings2utf8_seq xs = Inl e" using p Inl by (simp add: xs)
    then show ?thesis unfolding res by simp
  next
    case (Inr v')
    with p obtain y where y: "strings2utf8 x = Inr y"
      and okv: "\<forall>s. agrees_from (length st) st1 s \<longrightarrow> denoted n s v' = Some y" by blast
    from unchanged_below_nth [OF g1 "9.prems"(1)] "9.prems"(2)
    have r_st1: "r < length st1" and at_r: "st1 ! r = OList acc" by simp_all
    let ?st3 = "st1[r := OList (acc @ [v'])]"
    have st3: "store_append st1 r v' = ?st3" by (rule store_append_list [OF r_st1 at_r])
    have res: "strings2utf8_st_list n st r (v # vs) = strings2utf8_st_list n ?st3 r vs"
      by (simp add: r1 Inr st3)
    have acc3: "denoted_seq n s (acc @ [v']) = Some (pacc @ [y])" if "agrees_from (Suc r) ?st3 s" for s
    proof -
      from that have a1: "agrees_from (Suc r) st1 s" by (rule agrees_from_update)
      have "denoted_seq n s acc = Some pacc"
        using "9.prems"(6) agrees_from_grown [OF a1 g1] by simp
      moreover have "denoted n s v' = Some y"
        using okv agrees_from_mono [OF a1, of "length st"] "9.prems"(1) by simp
      ultimately show ?thesis by (rule denoted_seq_append)
    qed
    have ih: "(\<forall>e. fst (strings2utf8_st_list n ?st3 r vs) = Inl e \<longrightarrow> strings2utf8_seq xs' = Inl e) \<and>
      (\<forall>v''. fst (strings2utf8_st_list n ?st3 r vs) = Inr v'' \<longrightarrow> v'' = HRef r \<and>
         (\<exists>ys acc'. strings2utf8_seq xs' = Inr ys
            \<and> r < length (snd (strings2utf8_st_list n ?st3 r vs))
            \<and> snd (strings2utf8_st_list n ?st3 r vs) ! r = OList acc'
            \<and> (\<forall>s. agrees_from (Suc r) (snd (strings2utf8_st_list n ?st3 r vs)) s
                  \<longrightarrow> denoted_seq n s acc' = Some ((pacc @ [y]) @ ys))))"
    proof (rule "9.IH"(2) [OF r1 [symmetric] Inr, unfolded st3, of "acc @ [v']" st0 xs' "pacc @ [y]"])
      show "r < length ?st3" using r_st1 by simp
      show "?st3 ! r = OList (acc @ [v'])" using r_st1 by simp
      show "length st0 \<le> r" by (rule "9.prems"(3))
      show "unchanged_below (length st0) st0 ?st3"
        by (rule unchanged_below_update [OF unchanged_below_grown [OF "9.prems"(4) g1] "9.prems"(3)])
      show "denoted_seq n st0 vs = Some xs'" by (rule xs')
      show "\<forall>s. agrees_from (Suc r) ?st3 s \<longrightarrow> denoted_seq n s (acc @ [v']) = Some (pacc @ [y])"
        using acc3 by blast
    qed
    show ?thesis
    proof (intro conjI allI impI)
      fix e assume "fst (strings2utf8_st_list n st r (v # vs)) = Inl e"
      then have "strings2utf8_seq xs' = Inl e" using ih unfolding res by blast
      then show "strings2utf8_seq xs = Inl e" using y by (simp add: xs)
    next
      fix v'' assume v'': "fst (strings2utf8_st_list n st r (v # vs)) = Inr v''"
      then show "v'' = HRef r" using ih unfolding res by blast
      from v'' ih obtain ys acc' where ys: "strings2utf8_seq xs' = Inr ys"
        and 1: "r < length (snd (strings2utf8_st_list n ?st3 r vs))"
        and 2: "snd (strings2utf8_st_list n ?st3 r vs) ! r = OList acc'"
        and 3: "\<forall>s. agrees_from (Suc r) (snd (strings2utf8_st_list n ?st3 r vs)) s
                  \<longrightarrow> denoted_seq n s acc' = Some ((pacc @ [y]) @ ys)"
        unfolding res by blast
      have "strings2utf8_seq xs = Inr (y # ys)" using y ys by (simp add: xs)
      with 1 2 3 show "\<exists>ys acc'. strings2utf8_seq xs = Inr ys
            \<and> r < length (snd (strings2utf8_st_list n st r (v # vs)))
            \<and> snd (strings2utf8_st_list n st r (v # vs)) ! r = OList acc'
            \<and> (\<forall>s. agrees_from (Suc r) (snd (strings2utf8_st_list n st r (v # vs))) s
                  \<longrightarrow> denoted_seq n s acc' = Some (pacc @ ys))"
        unfolding res by (intro exI [of _ "y # ys"] exI [of _ acc']) simp
    qed
  qed
next
  case (11 n st r k v d)
  from "11.prems"(5) obtain pk pv pd where hf: "href_free k" and pk0: "denoted n st0 k = Some pk"
    and pv0: "denoted n st0 v = Some pv" and pd: "denoted_items n st0 d = Some pd"
    and xd: "xd = (pk, pv) # pd"
    by (auto split: option.splits if_splits)
  have pk: "denoted n st k = Some pk" by (rule denoted_stable(1) [OF pk0 "11.prems"(4)])
  obtain r1 st1 where r1: "strings2utf8_st n st k = (r1, st1)" by (cases "strings2utf8_st n st k")
  have g1: "unchanged_below (length st) st st1"
    using strings2utf8_st_frame(1) [of st n k] by (simp add: r1)
  from "11.IH"(1) [OF pk] have p: "(\<forall>e. r1 = Inl e \<longrightarrow> strings2utf8 pk = Inl e) \<and>
      (\<forall>k'. r1 = Inr k' \<longrightarrow> (\<exists>y. strings2utf8 pk = Inr y \<and>
            (\<forall>s. agrees_from (length st) st1 s \<longrightarrow> denoted n s k' = Some y)))"
    by (simp add: r1)
  show ?case
  proof (cases r1)
    case (Inl e)
    then have res: "strings2utf8_st_items n st r ((k, v) # d) = (Inl e, st1)" by (simp add: r1)
    have "strings2utf8_items pdacc xd = Inl e" using p Inl by (simp add: xd)
    then show ?thesis unfolding res by simp
  next
    case (Inr k')
    note k' = this
    with p obtain yk where yk: "strings2utf8 pk = Inr yk"
      and okk: "\<forall>s. agrees_from (length st) st1 s \<longrightarrow> denoted n s k' = Some yk" by blast
    have hf': "href_free k'"
      using strings2utf8_st_href_free(1) [OF hf, of n st] by (simp add: r1 k')
    have g01: "unchanged_below (length st0) st0 st1"
      by (rule unchanged_below_grown [OF "11.prems"(4) g1])
    have pv: "denoted n st1 v = Some pv" by (rule denoted_stable(1) [OF pv0 g01])
    obtain r2 st2 where r2: "strings2utf8_st n st1 v = (r2, st2)"
      by (cases "strings2utf8_st n st1 v")
    have g2: "unchanged_below (length st1) st1 st2"
      using strings2utf8_st_frame(1) [of st1 n v] by (simp add: r2)
    from "11.IH"(2) [OF r1 [symmetric] k' pv]
    have q: "(\<forall>e. r2 = Inl e \<longrightarrow> strings2utf8 pv = Inl e) \<and>
      (\<forall>v'. r2 = Inr v' \<longrightarrow> (\<exists>y. strings2utf8 pv = Inr y \<and>
            (\<forall>s. agrees_from (length st1) st2 s \<longrightarrow> denoted n s v' = Some y)))"
      by (simp add: r2)
    show ?thesis
    proof (cases r2)
      case (Inl e)
      then have res: "strings2utf8_st_items n st r ((k, v) # d) = (Inl e, st2)"
        by (simp add: r1 k' r2)
      have "strings2utf8_items pdacc xd = Inl e" using q Inl yk by (simp add: xd)
      then show ?thesis unfolding res by simp
    next
      case (Inr v')
      note v' = this
      with q obtain yv where yv: "strings2utf8 pv = Inr yv"
        and okv: "\<forall>s. agrees_from (length st1) st2 s \<longrightarrow> denoted n s v' = Some yv" by blast
      from unchanged_below_nth [OF g1 "11.prems"(1)] "11.prems"(2)
      have r_st1: "r < length st1" and at_r1: "st1 ! r = ODict dacc" by simp_all
      from unchanged_below_nth [OF g2 r_st1] at_r1
      have r_st2: "r < length st2" and at_r: "st2 ! r = ODict dacc" by simp_all
      let ?st3 = "st2[r := ODict (h_setitem dacc k' v')]"
      have st3: "store_setitem st2 r k' v' = ?st3" by (rule store_setitem_dict [OF r_st2 at_r])
      have res: "strings2utf8_st_items n st r ((k, v) # d) = strings2utf8_st_items n ?st3 r d"
        by (simp add: r1 k' r2 v' st3)
      have pure: "strings2utf8_items pdacc xd = strings2utf8_items (dict_setitem pdacc yk yv) pd"
        by (simp add: xd yk yv)
      have acc3: "denoted_items n s (h_setitem dacc k' v') = Some (dict_setitem pdacc yk yv)"
        if "agrees_from (Suc r) ?st3 s" for s
      proof -
        from that have a2: "agrees_from (Suc r) st2 s" by (rule agrees_from_update)
        have a1: "agrees_from (Suc r) st1 s" by (rule agrees_from_grown [OF a2 g2])
        have a0: "agrees_from (Suc r) st s" by (rule agrees_from_grown [OF a1 g1])
        have "denoted_items n s dacc = Some pdacc" using "11.prems"(6) a0 by simp
        moreover have "denoted n s k' = Some yk"
          using okk agrees_from_mono [OF a1, of "length st"] "11.prems"(1) by simp
        moreover have "denoted n s v' = Some yv"
          using okv agrees_from_mono [OF a2, of "length st1"] r_st1 by simp
        ultimately show ?thesis using hf' by (intro denoted_setitem)
      qed
      have g02: "unchanged_below (length st0) st0 st2"
        by (rule unchanged_below_grown [OF g01 g2])
      have ih: "(\<forall>e. fst (strings2utf8_st_items n ?st3 r d) = Inl e
              \<longrightarrow> strings2utf8_items (dict_setitem pdacc yk yv) pd = Inl e) \<and>
        (\<forall>v''. fst (strings2utf8_st_items n ?st3 r d) = Inr v'' \<longrightarrow> v'' = HRef r \<and>
           (\<exists>d' acc'. strings2utf8_items (dict_setitem pdacc yk yv) pd = Inr d'
              \<and> r < length (snd (strings2utf8_st_items n ?st3 r d))
              \<and> snd (strings2utf8_st_items n ?st3 r d) ! r = ODict acc'
              \<and> (\<forall>s. agrees_from (Suc r) (snd (strings2utf8_st_items n ?st3 r d)) s
                    \<longrightarrow> denoted_items n s acc' = Some d')))"
      proof (rule "11.IH"(3) [OF r1 [symmetric] k' r2 [symmetric] v', unfolded st3,
            of "h_setitem dacc k' v'" st0 pd "dict_setitem pdacc yk yv"])
        show "r < length ?st3" using r_st2 by simp
        show "?st3 ! r = ODict (h_setitem dacc k' v')" using r_st2 by simp
        show "length st0 \<le> r" by (rule "11.prems"(3))
        show "unchanged_below (length st0) st0 ?st3"
          by (rule unchanged_below_update [OF g02 "11.prems"(3)])
        show "denoted_items n st0 d = Some pd" by (rule pd)
        show "\<forall>s. agrees_from (Suc r) ?st3 s
            \<longrightarrow> denoted_items n s (h_setitem dacc k' v') = Some (dict_setitem pdacc yk yv)"
          using acc3 by blast
      qed
      show ?thesis unfolding res pure by (rule ih)
    qed
  qed
qed auto

lemma agrees_from_refl [simp]: "agrees_from m st st"
  by (simp add: agrees_from_def)

text \<open>
  When the argument denotes the value \<open>x\<close>, \<open>strings2utf8\<close> on the store raises what
  \<open>strings2utf8\<close> raises on \<open>x\<close>, or returns a value that denotes, in the store after
  the call, what \<open>strings2utf8\<close> returns on \<open>x\<close>.
\<close>

theorem strings2utf8_st_refines:
  assumes "denoted n st v = Some x"
  shows "(\<forall>e st'. strings2utf8_st n st v = (Inl e, st') \<longrightarrow> strings2utf8 x = Inl e) \<and>
     (\<forall>v' st'. strings2utf8_st n st v = (Inr v', st') \<longrightarrow>
        (\<exists>y. strings2utf8 x = Inr y \<and> denoted n st' v' = Some y))"
proof (intro conjI allI impI)
  fix e st' assume "strings2utf8_st n st v = (Inl e, st')"
  then show "strings2utf8 x = Inl e" using strings2utf8_st_denoted(1) [OF assms] by simp
next
  fix v' st' assume r: "strings2utf8_st n st v = (Inr v', st')"
  with strings2utf8_st_denoted(1) [OF assms] obtain y where y: "strings2utf8 x = Inr y"
    and "\<forall>s. agrees_from (length st) st' s \<longrightarrow> denoted n s v' = Some y"
    by auto
  then have "denoted n st' v' = Some y" by simp
  with y show "\<exists>y. strings2utf8 x = Inr y \<and> denoted n st' v' = Some y" by blast
qed

lemma denoted_Suc:
  shows "denoted n st v = Some x \<Longrightarrow> denoted (Suc n) st v = Some x"
    and "denoted_seq n st vs = Some xs \<Longrightarrow> denoted_seq (Suc n) st vs = Some xs"
    and "denoted_items n st d = Some pd \<Longrightarrow> denoted_items (Suc n) st d = Some pd"
proof (induction n st v and n st vs and n st d arbitrary: x and xs and pd
    rule: denoted_denoted_seq_denoted_items.induct)
  case (2 n st a)
  from 2(3) have a: "a < length st" by (simp split: if_splits)
  show ?case
  proof (cases "st ! a")
    case (ODict d)
    then show ?thesis using 2(1) [OF a ODict] 2(3) a by (auto split: option.splits)
  next
    case (OList vs)
    then show ?thesis using 2(2) [OF a OList] 2(3) a by (auto split: option.splits)
  qed
next
  case (3 n st vs)
  then show ?case by (auto split: option.splits)
next
  case (11 n st v vs)
  then show ?case by (fastforce split: option.splits)
next
  case (13 n st k v d)
  then show ?case by (fastforce split: option.splits if_splits)
qed simp_all

lemma denoted_of_items:
  "denoted_items n s acc = Some pacc \<Longrightarrow> denoted_items n s kvs = Some pkvs
   \<Longrightarrow> denoted_items n s (h_of_items acc kvs) = Some (dict_of_items pacc pkvs)"
proof (induction acc kvs arbitrary: pacc pkvs rule: h_of_items.induct)
  case (1 acc)
  then show ?case by simp
next
  case (2 acc k v kvs)
  from 2(3) obtain pk pv pkvs' where hf: "href_free k" and pk: "denoted n s k = Some pk"
    and pv: "denoted n s v = Some pv" and rest: "denoted_items n s kvs = Some pkvs'"
    and pkvs: "pkvs = (pk, pv) # pkvs'"
    by (auto split: option.splits if_splits)
  have "denoted_items n s (h_setitem acc k v) = Some (dict_setitem pacc pk pv)"
    by (rule denoted_setitem [OF 2(2) hf pk pv])
  from 2(1) [OF this rest] show ?case by (simp add: pkvs)
qed

theorem strings2utf8_st_refines_witness:
  "denoted (Suc (Suc (Suc 0)))
       [OList [HStr [0xFC], HInt 1], ODict [(HStr (ascii ''a''), HRef 0)]] (HRef 1)
     = Some (PDict [(PStr (ascii ''a''), PList [PStr [0xFC], PInt 1])])
   \<and> strings2utf8_st (Suc (Suc (Suc 0)))
       [OList [HStr [0xFC], HInt 1], ODict [(HStr (ascii ''a''), HRef 0)]] (HRef 1)
     = (Inr (HRef 2),
        [OList [HStr [0xFC], HInt 1], ODict [(HStr (ascii ''a''), HRef 0)],
         ODict [(HBytes ''a'', HRef 3)], OList [HBytes [CHR 0xC3, CHR 0xBC], HInt 1]])
   \<and> denoted (Suc (Suc (Suc 0)))
       [OList [HStr [0xFC], HInt 1], ODict [(HStr (ascii ''a''), HRef 0)],
        ODict [(HBytes ''a'', HRef 3)], OList [HBytes [CHR 0xC3, CHR 0xBC], HInt 1]] (HRef 2)
     = Some (PDict [(PBytes ''a'', PList [PBytes [CHR 0xC3, CHR 0xBC], PInt 1])])"
proof -
  have d: "denoted (Suc (Suc (Suc 0)))
       [OList [HStr [0xFC], HInt 1], ODict [(HStr (ascii ''a''), HRef 0)]] (HRef 1)
     = Some (PDict [(PStr (ascii ''a''), PList [PStr [0xFC], PInt 1])])"
    by simp
  have r: "strings2utf8_st (Suc (Suc (Suc 0)))
       [OList [HStr [0xFC], HInt 1], ODict [(HStr (ascii ''a''), HRef 0)]] (HRef 1)
     = (Inr (HRef 2),
        [OList [HStr [0xFC], HInt 1], ODict [(HStr (ascii ''a''), HRef 0)],
         ODict [(HBytes ''a'', HRef 3)], OList [HBytes [CHR 0xC3, CHR 0xBC], HInt 1]])"
    by (simp add: store_setitem_def store_append_def h_eq_def eval_simps)
  from strings2utf8_st_refines [OF d] r obtain y where
    y: "strings2utf8 (PDict [(PStr (ascii ''a''), PList [PStr [0xFC], PInt 1])]) = Inr y"
    and dy: "denoted (Suc (Suc (Suc 0)))
       [OList [HStr [0xFC], HInt 1], ODict [(HStr (ascii ''a''), HRef 0)],
        ODict [(HBytes ''a'', HRef 3)], OList [HBytes [CHR 0xC3, CHR 0xBC], HInt 1]] (HRef 2)
       = Some y"
    by blast
  have "strings2utf8 (PDict [(PStr (ascii ''a''), PList [PStr [0xFC], PInt 1])])
      = Inr (PDict [(PBytes ''a'', PList [PBytes [CHR 0xC3, CHR 0xBC], PInt 1])])"
    by (simp add: eval_simps)
  with y have "y = PDict [(PBytes ''a'', PList [PBytes [CHR 0xC3, CHR 0xBC], PInt 1])]" by simp
  with d r dy show ?thesis by (simp only:)
qed

lemma tuple2dict_st_eq:
  "tuple2dict_st st data =
     (HRef (Suc (length st)),
      st @ [ODict (h_of_items [] (map (\<lambda>(n, v). (HStr n, v)) (nt_fields data))),
            ODict (h_setitem
                     (h_of_items [] (h_of_items [] (map (\<lambda>(n, v). (HStr n, v)) (nt_fields data))))
                     (HStr (ascii ''type'')) (HStr (cls_name data)))])"
  by (simp add: tuple2dict_st_def store_alloc_def store_items_def store_setitem_def Let_def
      nth_append list_update_append)

lemma denoted_field_items:
  "denoted_seq n s (map snd fs) = Some xs \<Longrightarrow>
     denoted_items (Suc n) s (map (\<lambda>(n, v). (HStr n, v)) fs)
       = Some (map (\<lambda>(n, x). (PStr n, x)) (zip (map fst fs) xs))"
proof (induction fs arbitrary: xs)
  case Nil
  then show ?case by simp
next
  case (Cons f fs)
  obtain nm v where f: "f = (nm, v)" by (cases f)
  from Cons.prems obtain x xs' where x: "denoted n s v = Some x"
    and xs': "denoted_seq n s (map snd fs) = Some xs'" and xs: "xs = x # xs'"
    by (auto simp: f split: option.splits)
  from Cons.IH [OF xs'] denoted_Suc(1) [OF x] show ?case by (simp add: f xs)
qed

text \<open>
  When the values of the fields denote the values \<open>xs\<close>, the dictionary that
  \<open>tuple2dict\<close> makes in the store denotes the dictionary that \<open>tuple2dict\<close> returns
  for the named tuple of those values.
\<close>

theorem tuple2dict_st_refines:
  assumes "denoted_seq n st (map snd (nt_fields data)) = Some xs"
  shows "denoted (Suc (Suc n)) (snd (tuple2dict_st st data)) (fst (tuple2dict_st st data))
     = Some (tuple2dict \<lparr>cls_name = cls_name data, nt_fields = zip (map fst (nt_fields data)) xs\<rparr>)"
proof -
  let ?fi = "map (\<lambda>(n, v). (HStr n, v)) (nt_fields data)"
  let ?pf = "map (\<lambda>(n, x). (PStr n, x)) (zip (map fst (nt_fields data)) xs)"
  let ?res = "h_setitem (h_of_items [] (h_of_items [] ?fi)) (HStr (ascii ''type'')) (HStr (cls_name data))"
  let ?st3 = "st @ [ODict (h_of_items [] ?fi), ODict ?res]"
  have "unchanged_below (length st) st ?st3" by (simp add: unchanged_below_def)
  from denoted_stable(2) [OF assms this]
  have fi: "denoted_items (Suc n) ?st3 ?fi = Some ?pf" by (rule denoted_field_items)
  have nil: "denoted_items (Suc n) ?st3 [] = Some []" by simp
  have a: "denoted_items (Suc n) ?st3 (h_of_items [] ?fi) = Some (dict_of_items [] ?pf)"
    by (rule denoted_of_items [OF nil fi])
  have b: "denoted_items (Suc n) ?st3 (h_of_items [] (h_of_items [] ?fi))
      = Some (dict_of_items [] (dict_of_items [] ?pf))"
    by (rule denoted_of_items [OF nil a])
  have "denoted_items (Suc n) ?st3 ?res
      = Some (dict_setitem (dict_of_items [] (dict_of_items [] ?pf))
                (PStr (ascii ''type'')) (PStr (cls_name data)))"
    by (rule denoted_setitem [OF b]) simp_all
  then have "denoted (Suc (Suc n)) ?st3 (HRef (Suc (length st)))
      = Some (PDict (dict_setitem (dict_of_items [] (dict_of_items [] ?pf))
                (PStr (ascii ''type'')) (PStr (cls_name data))))"
    by (simp add: nth_append)
  then show ?thesis
    by (simp add: tuple2dict_st_eq tuple2dict_def asdict_def field_items_def)
qed

theorem tuple2dict_st_refines_witness:
  "denoted_seq (Suc (Suc 0)) [OList [HInt 1]]
       (map snd (nt_fields \<lparr>cls_name = ascii ''Rule'',
          nt_fields = [(ascii ''type'', HInt 7), (ascii ''opts'', HRef 0)]\<rparr>))
     = Some [PInt 7, PList [PInt 1]]
   \<and> denoted (Suc (Suc (Suc (Suc 0))))
       (snd (tuple2dict_st [OList [HInt 1]] \<lparr>cls_name = ascii ''Rule'',
          nt_fields = [(ascii ''type'', HInt 7), (ascii ''opts'', HRef 0)]\<rparr>))
       (fst (tuple2dict_st [OList [HInt 1]] \<lparr>cls_name = ascii ''Rule'',
          nt_fields = [(ascii ''type'', HInt 7), (ascii ''opts'', HRef 0)]\<rparr>))
     = Some (PDict [(PStr (ascii ''type''), PStr (ascii ''Rule'')),
                    (PStr (ascii ''opts''), PList [PInt 1])])"
proof -
  have h: "denoted_seq (Suc (Suc 0)) [OList [HInt 1]]
       (map snd (nt_fields \<lparr>cls_name = ascii ''Rule'',
          nt_fields = [(ascii ''type'', HInt 7), (ascii ''opts'', HRef 0)]\<rparr>))
     = Some [PInt 7, PList [PInt 1]]"
    by simp
  from tuple2dict_st_refines [OF h] h show ?thesis
    by (simp add: tuple2dict_def asdict_def eval_simps)
qed

end
